theory Spec2Isabelle
  imports Complex_Main "HOL-Library.Log_Nat"
begin

section \<open>JavaScript values used by video-processor.js\<close>

text \<open>
  A JavaScript string is a sequence of code units; it is modelled as a \<open>string\<close>, one
  \<open>char\<close> per code unit, so the model covers the strings whose code units are below
  256. \<open>length\<close> is the \<open>.length\<close> of the source.

  A JavaScript number is a binary64 value: a finite value, held as the rational it
  denotes, one of the two infinities, or NaN. Every arithmetic operation of the language
  returns the exact result rounded to the nearest binary64 value, ties to the even
  significand, and so do the operations below, through \<open>round64\<close>. The one thing not
  kept is the sign of a zero; nothing in the functions modelled here can tell the two
  zeros apart.
\<close>

datatype jsnum = Fin rat | PInf | NInf | NaN

text \<open>
  \<open>ilog2 a\<close> is the binary exponent of a positive rational: \<open>2^e \<le> a < 2^(e+1)\<close>.
  \<open>round64\<close> rounds a rational to binary64. The spacing of the binary64 values around
  \<open>a\<close> is \<open>2^(e-52)\<close>, and \<open>2^(-1074)\<close> in the subnormal range; the result is the
  nearest multiple of the spacing, the even one at a tie, and an infinity when that
  multiple reaches \<open>2^1024\<close>, which it can only do from exponent 1023 on.
\<close>

definition ilog2 :: "rat \<Rightarrow> int" where
  "ilog2 a =
     (let (p, q) = quotient_of a; d = bitlen p - bitlen q
      in if 2 powi d \<le> a then d else d - 1)"

definition round_half_even :: "rat \<Rightarrow> int" where
  "round_half_even x =
     (let f = \<lfloor>x\<rfloor>; d = x - of_int f
      in if d < 1 / 2 then f else if 1 / 2 < d then f + 1 else if even f then f else f + 1)"

definition round64 :: "rat \<Rightarrow> jsnum" where
  "round64 x =
     (if x = 0 then Fin 0
      else
        let a = \<bar>x\<bar>;
            e = ilog2 a;
            u = 2 powi (max e (- 1022) - 52);
            r = of_int (round_half_even (a / u)) * u
        in if e < 1023 then Fin (if 0 < x then r else - r)
           else if 2 powi 1024 \<le> r then (if 0 < x then PInf else NInf)
           else Fin (if 0 < x then r else - r))"

fun js_neg :: "jsnum \<Rightarrow> jsnum" where
  "js_neg (Fin a) = Fin (- a)"
| "js_neg PInf = NInf"
| "js_neg NInf = PInf"
| "js_neg NaN = NaN"

text \<open>\<open>x * y\<close>, \<open>x + y\<close>, \<open>x - y\<close> and \<open>x <= y\<close> on numbers. Negation is exact.\<close>

fun js_mul :: "jsnum \<Rightarrow> jsnum \<Rightarrow> jsnum" where
  "js_mul (Fin a) (Fin b) = round64 (a * b)"
| "js_mul NaN y = NaN"
| "js_mul x NaN = NaN"
| "js_mul (Fin a) y = (if a = 0 then NaN else if 0 < a then y else js_neg y)"
| "js_mul x (Fin b) = (if b = 0 then NaN else if 0 < b then x else js_neg x)"
| "js_mul PInf y = y"
| "js_mul NInf y = js_neg y"

fun js_add :: "jsnum \<Rightarrow> jsnum \<Rightarrow> jsnum" where
  "js_add (Fin a) (Fin b) = round64 (a + b)"
| "js_add NaN y = NaN"
| "js_add x NaN = NaN"
| "js_add (Fin a) y = y"
| "js_add x (Fin b) = x"
| "js_add PInf PInf = PInf"
| "js_add NInf NInf = NInf"
| "js_add PInf NInf = NaN"
| "js_add NInf PInf = NaN"

definition js_sub :: "jsnum \<Rightarrow> jsnum \<Rightarrow> jsnum" where
  "js_sub x y = js_add x (js_neg y)"

fun js_le :: "jsnum \<Rightarrow> jsnum \<Rightarrow> bool" where
  "js_le NaN y = False"
| "js_le x NaN = False"
| "js_le (Fin a) (Fin b) = (a \<le> b)"
| "js_le NInf y = True"
| "js_le x PInf = True"
| "js_le PInf y = False"
| "js_le x NInf = False"

subsection \<open>\<open>Number(string)\<close>\<close>

text \<open>
  \<open>Number\<close> applied to a string: white space is trimmed at both ends, the empty rest
  is 0, a rest that is a numeric literal is its value and any other rest is NaN. The
  literals are those of the language: \<open>0x\<close>, \<open>0o\<close> and \<open>0b\<close> integers without sign,
  and optionally signed decimal literals with optional fraction and exponent, or
  \<open>Infinity\<close>. The value of a literal is its mathematical value rounded to binary64
  (for a decimal literal of more than 20 significant digits the language also allows
  the rounding of the literal cut after the 20th digit; the model rounds the literal
  itself, as the runtime of the program does).
\<close>

definition is_ws :: "char \<Rightarrow> bool" where
  "is_ws c = ((of_char c :: nat) \<in> {9, 10, 11, 12, 13, 32, 160})"

definition trim :: "string \<Rightarrow> string" where
  "trim s = rev (dropWhile is_ws (rev (dropWhile is_ws s)))"

definition digit_of :: "char \<Rightarrow> nat option" where
  "digit_of c =
     (let n = (of_char c :: nat) in
      if 48 \<le> n \<and> n \<le> 57 then Some (n - 48)
      else if 97 \<le> n \<and> n \<le> 102 then Some (n - 87)
      else if 65 \<le> n \<and> n \<le> 70 then Some (n - 55)
      else None)"

definition is_digit_in :: "nat \<Rightarrow> char \<Rightarrow> bool" where
  "is_digit_in base c = (case digit_of c of None \<Rightarrow> False | Some d \<Rightarrow> d < base)"

definition digits_val :: "nat \<Rightarrow> string \<Rightarrow> int" where
  "digits_val base ds =
     foldl (\<lambda>a c. a * int base + (case digit_of c of None \<Rightarrow> 0 | Some d \<Rightarrow> int d)) 0 ds"

definition radix_literal :: "nat \<Rightarrow> string \<Rightarrow> jsnum" where
  "radix_literal base ds =
     (if ds \<noteq> [] \<and> list_all (is_digit_in base) ds
      then round64 (of_int (digits_val base ds)) else NaN)"

definition scale10 :: "rat \<Rightarrow> int \<Rightarrow> rat" where
  "scale10 m e = (if 0 \<le> e then m * 10 ^ nat e else m / 10 ^ nat (- e))"

definition exponent_part :: "string \<Rightarrow> int option" where
  "exponent_part s =
     (case s of
        [] \<Rightarrow> Some 0
      | c # t \<Rightarrow>
          if c = CHR ''e'' \<or> c = CHR ''E'' then
            (let (neg, ds) =
               (case t of
                  [] \<Rightarrow> (False, [])
                | d # u \<Rightarrow> if d = CHR ''-'' then (True, u)
                           else if d = CHR ''+'' then (False, u) else (False, t))
             in if ds \<noteq> [] \<and> list_all (is_digit_in 10) ds
                then Some (if neg then - digits_val 10 ds else digits_val 10 ds)
                else None)
          else None)"

definition unsigned_decimal :: "string \<Rightarrow> jsnum" where
  "unsigned_decimal s =
     (if s = ''Infinity'' then PInf
      else
        let ip = takeWhile (is_digit_in 10) s;
            r1 = dropWhile (is_digit_in 10) s;
            (fp, r2) =
              (case r1 of
                 [] \<Rightarrow> ([], r1)
               | c # t \<Rightarrow> if c = CHR ''.''
                          then (takeWhile (is_digit_in 10) t, dropWhile (is_digit_in 10) t)
                          else ([], r1))
        in if ip = [] \<and> fp = [] then NaN
           else (case exponent_part r2 of
                   None \<Rightarrow> NaN
                 | Some e \<Rightarrow>
                     round64 (scale10 (of_int (digits_val 10 (ip @ fp))) (e - int (length fp)))))"

definition radix_prefix :: "string \<Rightarrow> nat option" where
  "radix_prefix s =
     (case s of
        a # b # _ \<Rightarrow>
          if a = CHR ''0'' then
            (if b = CHR ''x'' \<or> b = CHR ''X'' then Some 16
             else if b = CHR ''o'' \<or> b = CHR ''O'' then Some 8
             else if b = CHR ''b'' \<or> b = CHR ''B'' then Some 2
             else None)
          else None
      | _ \<Rightarrow> None)"

definition Number :: "string \<Rightarrow> jsnum" where
  "Number str =
     (let s = trim str in
      if s = [] then Fin 0
      else (case radix_prefix s of
              Some base \<Rightarrow> radix_literal base (drop 2 s)
            | None \<Rightarrow>
                (case s of
                   [] \<Rightarrow> Fin 0
                 | c # t \<Rightarrow> if c = CHR ''-'' then js_neg (unsigned_decimal t)
                            else if c = CHR ''+'' then unsigned_decimal t
                            else unsigned_decimal s)))"

subsection \<open>\<open>String.prototype.split\<close> with a one-character separator\<close>

fun split_on :: "char \<Rightarrow> string \<Rightarrow> string list" where
  "split_on c [] = [[]]"
| "split_on c (x # xs) =
     (if x = c then [] # split_on c xs
      else (case split_on c xs of [] \<Rightarrow> [[x]] | p # ps \<Rightarrow> (x # p) # ps))"

section \<open>Parsed JSON\<close>

text \<open>
  The result of \<open>JSON.parse\<close>. A number is the binary64 value the parser produced.
  An object is the list of its own properties, each name once. \<open>field v k\<close> is the
  property access \<open>v.k\<close> on a value other than \<open>null\<close>, for the three names the
  program reads (\<open>url\<close>, \<open>startTime\<close>, \<open>endTime\<close>): \<open>None\<close> is
  \<open>undefined\<close>, which is what a number, a string, a boolean or an array gives for them.
  On \<open>null\<close> the access throws a \<open>TypeError\<close>.
\<close>

datatype json =
    JNull
  | JBool bool
  | JNum rat
  | JStr string
  | JArr "json list"
  | JObj "(string \<times> json) list"

fun field :: "json \<Rightarrow> string \<Rightarrow> json option" where
  "field (JObj kvs) k = map_of kvs k"
| "field _ k = None"

fun truthy :: "json option \<Rightarrow> bool" where
  "truthy None = False"
| "truthy (Some JNull) = False"
| "truthy (Some (JBool b)) = b"
| "truthy (Some (JNum n)) = (n \<noteq> 0)"
| "truthy (Some (JStr s)) = (s \<noteq> [])"
| "truthy (Some (JArr _)) = True"
| "truthy (Some (JObj _)) = True"

datatype js_error =
    InvalidTimeFormat string
  | EndNotAfterStart
  | TypeError
  | InvalidJSONFormat
  | ReadError
  | ToolError

section \<open>Timecodes\<close>

text \<open>\<open>timeToSeconds(timeStr)\<close> on a string: the only \<open>throw\<close> is the one after the three length tests.\<close>

definition timeToSeconds :: "string \<Rightarrow> js_error + jsnum" where
  "timeToSeconds timeStr =
     (let parts = map Number (split_on CHR '':'' timeStr) in
      if length parts = 3 then
        Inr (js_add (js_add (js_mul (parts ! 0) (Fin 3600)) (js_mul (parts ! 1) (Fin 60))) (parts ! 2))
      else if length parts = 2 then
        Inr (js_add (js_mul (parts ! 0) (Fin 60)) (parts ! 1))
      else if length parts = 1 then
        Inr (parts ! 0)
      else Inl (InvalidTimeFormat timeStr))"

text \<open>
  The same call on any value a task can hold: \<open>timeStr.split\<close> is not a function unless
  \<open>timeStr\<close> is a string, and calling it throws a \<open>TypeError\<close>.
\<close>

fun timeToSeconds_val :: "json option \<Rightarrow> js_error + jsnum" where
  "timeToSeconds_val (Some (JStr s)) = timeToSeconds s"
| "timeToSeconds_val _ = Inl TypeError"

text \<open>
  \<open>calculateDuration(startTime, endTime)\<close>: the \<open>catch\<close> logs and rethrows, so every
  error of the body is the error of the call. The source returns the difference
  rendered by \<open>toString\<close>; the model returns the number that is rendered. The
  comparison and the subtraction are those of binary64.
\<close>

definition calculateDuration :: "json option \<Rightarrow> json option \<Rightarrow> js_error + jsnum" where
  "calculateDuration startTime endTime =
     (case timeToSeconds_val startTime of
        Inl e \<Rightarrow> Inl e
      | Inr startSeconds \<Rightarrow>
          (case timeToSeconds_val endTime of
             Inl e \<Rightarrow> Inl e
           | Inr endSeconds \<Rightarrow>
               if js_le endSeconds startSeconds then Inl EndNotAfterStart
               else Inr (js_sub endSeconds startSeconds)))"

section \<open>Regular expressions\<close>

text \<open>
  The fragment of the regular expression language that \<open>getYouTubeId\<close> uses, with the
  backtracking semantics of the language: a matcher takes the rest of the input, the
  captures so far and a continuation, and returns the first success in the order the
  language tries the alternatives. \<open>*\<close> is greedy and refuses an iteration that
  consumes nothing. No group of the expression below sits under a \<open>*\<close>, so captures are
  never reset.
\<close>

datatype rx =
    Eps
  | Lit char
  | Dot
  | WordCh
  | NoneOf "char list"
  | Cat rx rx
  | Or rx rx
  | Star rx
  | Group nat rx

type_synonym captures = "nat \<Rightarrow> string option"

definition is_line_terminator :: "char \<Rightarrow> bool" where
  "is_line_terminator c = ((of_char c :: nat) \<in> {10, 13})"

definition is_word_char :: "char \<Rightarrow> bool" where
  "is_word_char c =
     (let n = (of_char c :: nat) in
      (97 \<le> n \<and> n \<le> 122) \<or> (65 \<le> n \<and> n \<le> 90) \<or> (48 \<le> n \<and> n \<le> 57) \<or> n = 95)"

definition one_char ::
  "(char \<Rightarrow> bool) \<Rightarrow> string \<Rightarrow> captures \<Rightarrow> (string \<Rightarrow> captures \<Rightarrow> captures option) \<Rightarrow> captures option" where
  "one_char P s cs k = (case s of [] \<Rightarrow> None | x # xs \<Rightarrow> if P x then k xs cs else None)"

function (sequential) rx_match ::
  "rx \<Rightarrow> string \<Rightarrow> captures \<Rightarrow> (string \<Rightarrow> captures \<Rightarrow> captures option) \<Rightarrow> captures option" where
  "rx_match Eps s cs k = k s cs"
| "rx_match (Lit c) s cs k = one_char (\<lambda>x. x = c) s cs k"
| "rx_match Dot s cs k = one_char (\<lambda>x. \<not> is_line_terminator x) s cs k"
| "rx_match WordCh s cs k = one_char is_word_char s cs k"
| "rx_match (NoneOf xs) s cs k = one_char (\<lambda>x. x \<notin> set xs) s cs k"
| "rx_match (Cat a b) s cs k = rx_match a s cs (\<lambda>s' cs'. rx_match b s' cs' k)"
| "rx_match (Or a b) s cs k =
     (case rx_match a s cs k of Some r \<Rightarrow> Some r | None \<Rightarrow> rx_match b s cs k)"
| "rx_match (Star a) s cs k =
     (case rx_match a s cs
             (\<lambda>s' cs'. if length s' < length s then rx_match (Star a) s' cs' k else None) of
        Some r \<Rightarrow> Some r
      | None \<Rightarrow> k s cs)"
| "rx_match (Group n a) s cs k =
     rx_match a s cs (\<lambda>s' cs'. k s' (cs'(n \<mapsto> take (length s - length s') s)))"
  by pat_completeness auto
termination
  by (relation "measures [\<lambda>(r, s, cs, k). size r, \<lambda>(r, s, cs, k). length s]") auto

fun lits :: "string \<Rightarrow> rx" where
  "lits [] = Eps"
| "lits [c] = Lit c"
| "lits (c # cs) = Cat (Lit c) (lits cs)"

section \<open>\<open>getYouTubeId\<close>\<close>

text \<open>
  \<open>/^.*(youtu.be\/|v\/|u\/\w\/|embed\/|watch\?v=|&v=)([^#&?]*).*/\<close>. The expression has
  no flag and starts with \<open>^\<close>, so \<open>url.match\<close> can only succeed from index 0:
  \<open>regExp\<close> is the expression after \<open>^\<close>, matched from the start of the string.
\<close>

definition regExp :: rx where
  "regExp =
     Cat (Star Dot)
      (Cat (Group 1
              (Or (Cat (lits ''youtu'') (Cat Dot (lits ''be/'')))
              (Or (lits ''v/'')
              (Or (Cat (lits ''u/'') (Cat WordCh (Lit CHR ''/'')))
              (Or (lits ''embed/'')
              (Or (lits ''watch?v='')
                  (lits ''&v='')))))))
      (Cat (Group 2 (Star (NoneOf ''#&?'')))
           (Star Dot)))"

definition match_regExp :: "string \<Rightarrow> captures option" where
  "match_regExp url = rx_match regExp url (\<lambda>_. None) (\<lambda>s cs. Some cs)"

text \<open>
  \<open>return (match && match[2].length === 11) ? match[2] : null\<close>. Reading \<open>.length\<close> of
  a group that did not take part in the match would throw; that is the \<open>Inl\<close> branch.
\<close>

definition getYouTubeId :: "string \<Rightarrow> js_error + string option" where
  "getYouTubeId url =
     (case match_regExp url of
        None \<Rightarrow> Inr None
      | Some m \<Rightarrow>
          (case m 2 of
             None \<Rightarrow> Inl TypeError
           | Some g \<Rightarrow> if length g = 11 then Inr (Some g) else Inr None))"

section \<open>The run: arguments, the outside world, the state\<close>

text \<open>\<open>argv\<close>; \<open>input\<close> and \<open>output\<close> are reserved words here, hence the suffix.\<close>

record args =
  input_path :: string
  output_path :: string
  cacheDir :: string
  tempDir :: string
  verbose :: bool

text \<open>
  What the run cannot decide by itself is a parameter: whether each tool is installed,
  whether the directories could be prepared, what the input file parses to (\<open>None\<close>
  when reading or parsing throws), which files exist at the start, whether the
  download, the stream copy and the re-encode made for request \<open>i\<close> (counted from 0)
  succeed, what the concatenation does, whether \<open>fs.remove(tempDir)\<close> succeeds, and
  the platform's \<open>path.join\<close> together with the relation "this path lies in that
  directory" that \<open>fs.emptyDir\<close> and \<open>fs.remove\<close> act on. Each request makes at most
  one call of each kind, so indexing the outcomes by request loses nothing.

  A download that succeeds leaves the file at the path it was given and one that
  fails leaves nothing there; a cut that succeeds leaves the segment file. A failed
  concatenation may or may not leave a file at the output path.
\<close>

datatype merge_result = MergeOk | MergeFailed bool

record world =
  ffmpegFound :: bool
  ytdlpFound :: bool
  dirsOk :: bool
  inputFile :: "json option"
  files0 :: "string set"
  downloadOk :: "nat \<Rightarrow> bool"
  copyOk :: "nat \<Rightarrow> bool"
  reencodeOk :: "nat \<Rightarrow> bool"
  mergeResult :: merge_result
  removeOk :: bool
  path_join :: "string \<Rightarrow> string \<Rightarrow> string"
  path_inside :: "string \<Rightarrow> string \<Rightarrow> bool"

text \<open>
  Every start of an external download, cut or concatenation is recorded, in order,
  with the arguments it was given. The version checks at the start of \<open>main\<close> are not
  recorded. \<open>report\<close> holds, per request and in order, how the request ended; it is
  what the messages on the console say.
\<close>

datatype event =
    Download string string
  | CutCopy string "json option" jsnum string
  | CutReencode string "json option" jsnum string
  | Merge "string list" string

datatype skip_reason = InvalidReference | DownloadError | CutError js_error

datatype status = Produced string | Skipped skip_reason

record pstate =
  files :: "string set"
  events :: "event list"
  cutSegmentPaths :: "string list"
  report :: "status list"

datatype outcome = Exit nat | Finished | Crashed js_error

definition remove_inside :: "world \<Rightarrow> string \<Rightarrow> string set \<Rightarrow> string set" where
  "remove_inside w dir fs = {p \<in> fs. \<not> path_inside w dir p}"

section \<open>Reading the input (step 3 of \<open>main\<close>)\<close>

text \<open>
  \<open>task => !task.url || !task.startTime || !task.endTime\<close>; on \<open>null\<close> the first access
  throws.
\<close>

definition task_invalid :: "json \<Rightarrow> js_error + bool" where
  "task_invalid task =
     (if task = JNull then Inl TypeError
      else Inr (\<not> truthy (field task ''url'') \<or> \<not> truthy (field task ''startTime'')
                \<or> \<not> truthy (field task ''endTime'')))"

text \<open>\<open>videoTasks.some(...)\<close> stops at the first entry that answers true or throws.\<close>

fun some_invalid :: "json list \<Rightarrow> js_error + bool" where
  "some_invalid [] = Inr False"
| "some_invalid (task # rest) =
     (case task_invalid task of
        Inl e \<Rightarrow> Inl e
      | Inr True \<Rightarrow> Inr True
      | Inr False \<Rightarrow> some_invalid rest)"

definition read_input :: "world \<Rightarrow> js_error + json list" where
  "read_input w =
     (case inputFile w of
        None \<Rightarrow> Inl ReadError
      | Some (JArr videoTasks) \<Rightarrow>
          (case some_invalid videoTasks of
             Inl e \<Rightarrow> Inl e
           | Inr True \<Rightarrow> Inl InvalidJSONFormat
           | Inr False \<Rightarrow> Inr videoTasks)
      | Some _ \<Rightarrow> Inl InvalidJSONFormat)"

section \<open>One request (step 4 of \<open>main\<close>)\<close>

text \<open>The decimal rendering of \<open>i + 1\<close> in the segment's file name.\<close>

function show_nat :: "nat \<Rightarrow> string" where
  "show_nat n =
     (if n < 10 then [char_of (48 + n)]
      else show_nat (n div 10) @ [char_of (48 + n mod 10)])"
  by pat_completeness auto
termination
  by (relation "measure id") auto

declare show_nat.simps [simp del]

text \<open>
  Step 4a: the cached file is used when it exists, with no other check; otherwise the
  download is started with the cache path as its output. The result says whether the
  source is there.
\<close>

definition ensure_cached :: "world \<Rightarrow> nat \<Rightarrow> string \<Rightarrow> string \<Rightarrow> pstate \<Rightarrow> bool \<times> pstate" where
  "ensure_cached w i url cachedVideoPath st =
     (if cachedVideoPath \<in> files st then (True, st)
      else
        let st1 = st\<lparr>events := events st @ [Download url cachedVideoPath]\<rparr> in
        if downloadOk w i then (True, st1\<lparr>files := insert cachedVideoPath (files st1)\<rparr>)
        else (False, st1))"

definition push_segment :: "string \<Rightarrow> pstate \<Rightarrow> pstate" where
  "push_segment segmentOutputPath st =
     st\<lparr>files := insert segmentOutputPath (files st),
        cutSegmentPaths := cutSegmentPaths st @ [segmentOutputPath],
        report := report st @ [Produced segmentOutputPath]\<rparr>"

text \<open>
  Step 4b. \<open>calculateDuration\<close> runs while the command is being built, before
  \<open>save\<close> starts the transcoder: when it throws, the promise is rejected and the
  \<open>catch\<close> skips the request. The \<open>error\<close> listener of the stream copy builds the
  re-encode command and calls \<open>calculateDuration\<close> again; nothing would catch a throw
  there. The first component of the result is the error that leaves \<open>main\<close>, if any.
\<close>

definition cut_segment ::
  "world \<Rightarrow> nat \<Rightarrow> string \<Rightarrow> json option \<Rightarrow> json option \<Rightarrow> string \<Rightarrow> pstate
     \<Rightarrow> js_error option \<times> pstate" where
  "cut_segment w i localVideoPath startTime endTime segmentOutputPath st =
     (case calculateDuration startTime endTime of
        Inl e \<Rightarrow> (None, st\<lparr>report := report st @ [Skipped (CutError e)]\<rparr>)
      | Inr d \<Rightarrow>
          let st1 = st\<lparr>events := events st @ [CutCopy localVideoPath startTime d segmentOutputPath]\<rparr> in
          if copyOk w i then (None, push_segment segmentOutputPath st1)
          else
            (case calculateDuration startTime endTime of
               Inl e \<Rightarrow> (Some e, st1)
             | Inr d' \<Rightarrow>
                 let st2 = st1\<lparr>events := events st1 @
                              [CutReencode localVideoPath startTime d' segmentOutputPath]\<rparr> in
                 if reencodeOk w i then (None, push_segment segmentOutputPath st2)
                 else (None, st2\<lparr>report := report st2 @ [Skipped (CutError ToolError)]\<rparr>)))"

text \<open>
  The body of the \<open>for\<close> loop for the task at index \<open>i\<close>. \<open>getYouTubeId(task.url)\<close> is
  not inside any \<open>try\<close>: on a \<open>url\<close> that is not a string it throws out of \<open>main\<close>.
\<close>

definition process_task :: "args \<Rightarrow> world \<Rightarrow> nat \<Rightarrow> json \<Rightarrow> pstate \<Rightarrow> js_error option \<times> pstate" where
  "process_task a w i task st =
     (if task = JNull then (Some TypeError, st)
      else
        (case field task ''url'' of
           Some (JStr url) \<Rightarrow>
             (case getYouTubeId url of
                Inl e \<Rightarrow> (Some e, st)
              | Inr None \<Rightarrow> (None, st\<lparr>report := report st @ [Skipped InvalidReference]\<rparr>)
              | Inr (Some videoId) \<Rightarrow>
                  let cachedVideoPath = path_join w (cacheDir a) (videoId @ ''.mp4'') in
                  (case ensure_cached w i url cachedVideoPath st of
                     (False, st1) \<Rightarrow> (None, st1\<lparr>report := report st1 @ [Skipped DownloadError]\<rparr>)
                   | (True, st1) \<Rightarrow>
                       let segmentFileName =
                             ''cut_segment_'' @ show_nat (i + 1) @ ''_'' @ videoId @ ''.mp4'';
                           segmentOutputPath = path_join w (tempDir a) segmentFileName
                       in cut_segment w i cachedVideoPath (field task ''startTime'')
                            (field task ''endTime'') segmentOutputPath st1))
         | _ \<Rightarrow> (Some TypeError, st)))"

text \<open>The loop: requests one after the other, each awaited before the next starts.\<close>

fun process_tasks ::
  "args \<Rightarrow> world \<Rightarrow> nat \<Rightarrow> json list \<Rightarrow> pstate \<Rightarrow> js_error option \<times> pstate" where
  "process_tasks a w i [] st = (None, st)"
| "process_tasks a w i (task # rest) st =
     (case process_task a w i task st of
        (Some e, st') \<Rightarrow> (Some e, st')
      | (None, st') \<Rightarrow> process_tasks a w (Suc i) rest st')"

section \<open>Joining and cleaning up (steps 5 and 6 of \<open>main\<close>)\<close>

text \<open>
  Step 5 after the emptiness test: every accumulated path is an input of the merger,
  in the order of the array. The \<open>catch\<close> logs the failure and does nothing else.
\<close>

definition join_segments :: "args \<Rightarrow> world \<Rightarrow> pstate \<Rightarrow> pstate" where
  "join_segments a w st =
     (let st1 = st\<lparr>events := events st @ [Merge (cutSegmentPaths st) (output_path a)]\<rparr> in
      case mergeResult w of
        MergeOk \<Rightarrow> st1\<lparr>files := insert (output_path a) (files st1)\<rparr>
      | MergeFailed partial \<Rightarrow>
          if partial then st1\<lparr>files := insert (output_path a) (files st1)\<rparr> else st1)"

text \<open>Step 6: a failing removal is caught and only warned about.\<close>

definition cleanup :: "args \<Rightarrow> world \<Rightarrow> pstate \<Rightarrow> pstate" where
  "cleanup a w st =
     (if \<not> verbose a then
        (if removeOk w then st\<lparr>files := remove_inside w (tempDir a) (files st)\<rparr> else st)
      else st)"

section \<open>\<open>main\<close>\<close>

text \<open>
  The result is how the process ends and the state it leaves. \<open>Exit n\<close> is
  \<open>process.exit(n)\<close>, \<open>Finished\<close> is \<open>main\<close> returning, and \<open>Crashed e\<close> is \<open>main\<close>
  rejected with \<open>e\<close>, which the handler at the end of the file reports as an unexpected
  error before the process ends with a failure status.
\<close>

definition main :: "args \<Rightarrow> world \<Rightarrow> outcome \<times> pstate" where
  "main a w =
     (let st0 = \<lparr>files = files0 w, events = [], cutSegmentPaths = [], report = []\<rparr> in
      if \<not> ffmpegFound w \<or> \<not> ytdlpFound w then (Exit 1, st0)
      else if \<not> dirsOk w then (Exit 1, st0)
      else
        let st1 = st0\<lparr>files := remove_inside w (tempDir a) (files st0)\<rparr> in
        (case read_input w of
           Inl e \<Rightarrow> (Exit 1, st1)
         | Inr videoTasks \<Rightarrow>
             (case process_tasks a w 0 videoTasks st1 of
                (Some e, st2) \<Rightarrow> (Crashed e, st2)
              | (None, st2) \<Rightarrow>
                  if cutSegmentPaths st2 = [] then
                    (if \<not> verbose a then
                       (if removeOk w
                        then (Exit 0, st2\<lparr>files := remove_inside w (tempDir a) (files st2)\<rparr>)
                        else (Crashed ToolError, st2))
                     else (Exit 0, st2))
                  else (Finished, cleanup a w (join_segments a w st2)))))"

section \<open>Notions used to state the properties\<close>

text \<open>
  A non-empty string of decimal digits, the number it writes (by position), and the
  same with an optional minus sign in front.
\<close>

definition decimal_digits :: "string \<Rightarrow> bool" where
  "decimal_digits ds = (ds \<noteq> [] \<and> set ds \<subseteq> set ''0123456789'')"

fun dec :: "string \<Rightarrow> nat" where
  "dec [] = 0"
| "dec (c # cs) = (of_char c - 48) * 10 ^ length cs + dec cs"

definition signed_digits :: "bool \<Rightarrow> string \<Rightarrow> string" where
  "signed_digits neg ds = (if neg then CHR ''-'' # ds else ds)"

definition signed_val :: "bool \<Rightarrow> string \<Rightarrow> int" where
  "signed_val neg ds = (if neg then - int (dec ds) else int (dec ds))"

text \<open>
  What a regular expression matches, as a relation: \<open>rx_den r u cs cs'\<close> says that \<open>r\<close>
  can match the string \<open>u\<close>, taking the captures from \<open>cs\<close> to \<open>cs'\<close>. The matcher
  \<open>rx_match\<close> only ever succeeds along this relation.
\<close>

inductive rx_den :: "rx \<Rightarrow> string \<Rightarrow> captures \<Rightarrow> captures \<Rightarrow> bool" where
  den_Eps: "rx_den Eps [] cs cs"
| den_Lit: "rx_den (Lit c) [c] cs cs"
| den_Dot: "\<not> is_line_terminator x \<Longrightarrow> rx_den Dot [x] cs cs"
| den_WordCh: "is_word_char x \<Longrightarrow> rx_den WordCh [x] cs cs"
| den_NoneOf: "x \<notin> set xs \<Longrightarrow> rx_den (NoneOf xs) [x] cs cs"
| den_Cat: "rx_den a u cs cs1 \<Longrightarrow> rx_den b v cs1 cs2 \<Longrightarrow> rx_den (Cat a b) (u @ v) cs cs2"
| den_OrL: "rx_den a u cs cs1 \<Longrightarrow> rx_den (Or a b) u cs cs1"
| den_OrR: "rx_den b u cs cs1 \<Longrightarrow> rx_den (Or a b) u cs cs1"
| den_Star0: "rx_den (Star a) [] cs cs"
| den_StarS: "rx_den a u cs cs1 \<Longrightarrow> rx_den (Star a) v cs1 cs2 \<Longrightarrow> rx_den (Star a) (u @ v) cs cs2"
| den_Group: "rx_den a u cs cs1 \<Longrightarrow> rx_den (Group n a) u cs (cs1(n \<mapsto> u))"

text \<open>
  The strings the first group of \<open>regExp\<close> can match, and the token captured by its
  second group when the expression matches.
\<close>

definition marker :: "string \<Rightarrow> bool" where
  "marker mk =
     ((\<exists>x. \<not> is_line_terminator x \<and> mk = ''youtu'' @ [x] @ ''be/'') \<or> mk = ''v/''
      \<or> (\<exists>x. is_word_char x \<and> mk = ''u/'' @ [x] @ ''/'') \<or> mk = ''embed/''
      \<or> mk = ''watch?v='' \<or> mk = ''&v='')"

definition captured_token :: "string \<Rightarrow> string option" where
  "captured_token url = (case match_regExp url of None \<Rightarrow> None | Some m \<Rightarrow> m 2)"

text \<open>Kinds of events, the events a step adds, and the clips a report names, in order.\<close>

fun is_cut :: "event \<Rightarrow> bool" where
  "is_cut (CutCopy _ _ _ _) = True"
| "is_cut (CutReencode _ _ _ _) = True"
| "is_cut _ = False"

fun is_download :: "event \<Rightarrow> bool" where
  "is_download (Download _ _) = True"
| "is_download _ = False"

fun is_merge :: "event \<Rightarrow> bool" where
  "is_merge (Merge _ _) = True"
| "is_merge _ = False"

definition new_events :: "pstate \<Rightarrow> pstate \<Rightarrow> event list" where
  "new_events st st' = drop (length (events st)) (events st')"

fun clips :: "status list \<Rightarrow> string list" where
  "clips [] = []"
| "clips (Produced p # rest) = p # clips rest"
| "clips (Skipped _ # rest) = clips rest"

text \<open>
  Concrete runs: the arguments \<open>--input videos.json --output out.mp4 --cache-dir cache
  --temp-dir tmp\<close>, a task object with three string properties, and a world in which
  both tools are installed, the directories can be prepared, no file exists at the
  start and paths are joined with a slash.
\<close>

definition example_args :: "bool \<Rightarrow> args" where
  "example_args v =
     \<lparr>input_path = ''videos.json'', output_path = ''out.mp4'', cacheDir = ''cache'',
      tempDir = ''tmp'', verbose = v\<rparr>"

definition example_task :: "string \<Rightarrow> string \<Rightarrow> string \<Rightarrow> json" where
  "example_task u s e = JObj [(''url'', JStr u), (''startTime'', JStr s), (''endTime'', JStr e)]"

definition example_world ::
  "json \<Rightarrow> (nat \<Rightarrow> bool) \<Rightarrow> (nat \<Rightarrow> bool) \<Rightarrow> (nat \<Rightarrow> bool) \<Rightarrow> merge_result \<Rightarrow> bool \<Rightarrow> world" where
  "example_world inp dl cp re mr rm =
     \<lparr>ffmpegFound = True, ytdlpFound = True, dirsOk = True, inputFile = Some inp,
      files0 = {}, downloadOk = dl, copyOk = cp, reencodeOk = re, mergeResult = mr,
      removeOk = rm,
      path_join = (\<lambda>d n. d @ ''/'' @ n),
      path_inside = (\<lambda>d p. take (Suc (length d)) p = d @ ''/'')\<rparr>"

definition empty_state :: pstate where
  "empty_state = \<lparr>files = {}, events = [], cutSegmentPaths = [], report = []\<rparr>"

text \<open>
  The segment path of request \<open>i\<close> and the cache path for an identifier, the source a
  cut event reads, the state in which the loop starts, and the worlds of the example
  runs below.
\<close>

definition segment_path :: "args \<Rightarrow> world \<Rightarrow> nat \<Rightarrow> string \<Rightarrow> string" where
  "segment_path a w i videoId =
     path_join w (tempDir a) (''cut_segment_'' @ show_nat (i + 1) @ ''_'' @ videoId @ ''.mp4'')"

definition cache_path :: "args \<Rightarrow> world \<Rightarrow> string \<Rightarrow> string" where
  "cache_path a w videoId = path_join w (cacheDir a) (videoId @ ''.mp4'')"

fun cut_source :: "event \<Rightarrow> string option" where
  "cut_source (CutCopy src _ _ _) = Some src"
| "cut_source (CutReencode src _ _ _) = Some src"
| "cut_source _ = None"

definition init_state :: "args \<Rightarrow> world \<Rightarrow> pstate" where
  "init_state a w =
     \<lparr>files = remove_inside w (tempDir a) (files0 w), events = [], cutSegmentPaths = [], report = []\<rparr>"

definition always :: "nat \<Rightarrow> bool" where "always i = True"

definition never :: "nat \<Rightarrow> bool" where "never i = False"

definition world_skip_middle :: world where
  "world_skip_middle =
     example_world
       (JArr [example_task ''https://youtu.be/AAAAAAAAAAA'' ''00:00:10'' ''00:00:20'',
              example_task ''https://example.com/clip'' ''0'' ''5'',
              example_task ''https://www.youtube.com/watch?v=CCCCCCCCCCC'' ''1:00'' ''1:30''])
       always always always MergeOk True"

definition world_end_before_start :: world where
  "world_end_before_start =
     example_world (JArr [example_task ''https://youtu.be/AAAAAAAAAAA'' ''10'' ''5''])
       always always always MergeOk True"

definition world_download_fails :: world where
  "world_download_fails =
     example_world
       (JArr [example_task ''https://youtu.be/AAAAAAAAAAA'' ''0'' ''5'',
              example_task ''https://www.youtube.com/watch?v=AAAAAAAAAAA'' ''7'' ''9''])
       never always always MergeOk True"

definition world_merge_fails :: world where
  "world_merge_fails =
     example_world (JArr [example_task ''https://youtu.be/AAAAAAAAAAA'' ''0'' ''5''])
       always always always (MergeFailed True) True"

definition world_no_clip :: world where
  "world_no_clip =
     example_world (JArr [example_task ''https://example.com/clip'' ''0'' ''5''])
       always always always MergeOk False"

definition world_missing_field :: world where
  "world_missing_field =
     example_world
       (JArr [example_task ''https://youtu.be/AAAAAAAAAAA'' ''0'' ''5'',
              JObj [(''url'', JStr ''https://youtu.be/BBBBBBBBBBB''), (''startTime'', JStr ''1'')]])
       always always always MergeOk True"

definition world_cuts_fail :: world where
  "world_cuts_fail =
     example_world (JArr [example_task ''https://youtu.be/AAAAAAAAAAA'' ''0'' ''5''])
       always never never MergeOk True"

text \<open>
  \<open>clip_of_request a w i task evs p\<close>: \<open>p\<close> is the clip of the task at index \<open>i\<close>. The
  task's own URL yields an identifier, \<open>p\<close> is the segment file numbered \<open>i + 1\<close> for
  that identifier, and among the events \<open>evs\<close> is a stream copy into \<open>p\<close> from the
  identifier's cache file, from the task's own start time and for the duration computed
  from its own start and end times.
\<close>

definition clip_of_request :: "args \<Rightarrow> world \<Rightarrow> nat \<Rightarrow> json \<Rightarrow> event list \<Rightarrow> string \<Rightarrow> bool" where
  "clip_of_request a w i task evs p =
     (\<exists>url v d. field task ''url'' = Some (JStr url) \<and> getYouTubeId url = Inr (Some v)
        \<and> p = segment_path a w i v
        \<and> calculateDuration (field task ''startTime'') (field task ''endTime'') = Inr d
        \<and> CutCopy (cache_path a w v) (field task ''startTime'') d p \<in> set evs)"

definition world_bad_timecode :: world where
  "world_bad_timecode =
     example_world (JArr [example_task ''https://youtu.be/AAAAAAAAAAA'' ''1:2:3:4'' ''5''])
       always always always MergeOk True"

section \<open>Binary64 rounding\<close>

text \<open>
  \<open>ilog2\<close> is the binary exponent, and rounding leaves an integer of magnitude below
  \<open>2^53\<close> as it is.
\<close>

lemma ilog2_bounds:
  assumes "0 < a"
  shows "2 powi (ilog2 a) \<le> a \<and> a < 2 powi (ilog2 a + 1)"
proof -
  obtain p q where pq: "quotient_of a = (p, q)" by (cases "quotient_of a")
  then have q: "0 < q" and a: "a = of_int p / of_int q"
    using quotient_of_denom_pos quotient_of_div by blast+
  have p: "0 < p" using assms a q by (simp add: zero_less_divide_iff)
  let ?d = "bitlen p - bitlen q"
  have bp: "2 ^ nat (bitlen p - 1) \<le> p" "p < 2 ^ nat (bitlen p)"
    using bitlen_bounds[OF p] by simp_all
  have bq: "2 ^ nat (bitlen q - 1) \<le> q" "q < 2 ^ nat (bitlen q)"
    using bitlen_bounds[OF q] by simp_all
  have lp: "1 \<le> bitlen p" and lq: "1 \<le> bitlen q"
    using p q bitlen_eq_zero_iff[of p] bitlen_eq_zero_iff[of q] bitlen_nonneg[of p] bitlen_nonneg[of q]
    by linarith+
  have P1: "(2::rat) powi (bitlen p - 1) \<le> of_int p"
  proof -
    have "(of_int (2 ^ nat (bitlen p - 1)) :: rat) \<le> of_int p" using bp(1) by (simp only: of_int_le_iff)
    then show ?thesis using lp by (simp add: power_int_def)
  qed
  have P2: "(of_int p :: rat) < 2 powi (bitlen p)"
  proof -
    have "(of_int p :: rat) < of_int (2 ^ nat (bitlen p))" using bp(2) by (simp only: of_int_less_iff)
    then show ?thesis using lp by (simp add: power_int_def)
  qed
  have Q1: "(2::rat) powi (bitlen q - 1) \<le> of_int q"
  proof -
    have "(of_int (2 ^ nat (bitlen q - 1)) :: rat) \<le> of_int q" using bq(1) by (simp only: of_int_le_iff)
    then show ?thesis using lq by (simp add: power_int_def)
  qed
  have Q2: "(of_int q :: rat) < 2 powi (bitlen q)"
  proof -
    have "(of_int q :: rat) < of_int (2 ^ nat (bitlen q))" using bq(2) by (simp only: of_int_less_iff)
    then show ?thesis using lq by (simp add: power_int_def)
  qed
  have qpos: "(0::rat) < of_int q" using q by simp
  have low: "(2::rat) powi (?d - 1) \<le> a"
  proof -
    have "(2::rat) powi (?d - 1) * of_int q \<le> 2 powi (?d - 1) * 2 powi (bitlen q)"
      using Q2 by (intro mult_left_mono) auto
    also have "\<dots> = 2 powi (bitlen p - 1)"
      by (simp add: power_int_add[symmetric])
    also have "\<dots> \<le> of_int p" by (rule P1)
    finally show ?thesis unfolding a using qpos by (simp add: pos_le_divide_eq)
  qed
  have high: "a < (2::rat) powi (?d + 1)"
  proof -
    have "(of_int p :: rat) < 2 powi (bitlen p)" by (rule P2)
    also have "\<dots> = 2 powi (?d + 1) * 2 powi (bitlen q - 1)"
      by (simp add: power_int_add[symmetric])
    also have "\<dots> \<le> 2 powi (?d + 1) * of_int q"
      using Q1 by (intro mult_left_mono) auto
    finally show ?thesis unfolding a using qpos by (simp add: pos_divide_less_eq)
  qed
  show ?thesis
  proof (cases "2 powi ?d \<le> a")
    case True
    then have "ilog2 a = ?d" by (simp add: ilog2_def pq)
    then show ?thesis using True high by simp
  next
    case False
    then have "ilog2 a = ?d - 1" by (simp add: ilog2_def pq)
    then show ?thesis using False low by simp
  qed
qed

lemma round_half_even_int: "round_half_even (of_int m) = m"
  by (simp add: round_half_even_def)

lemma round64_int:
  assumes "\<bar>n\<bar> < 2 ^ 53"
  shows "round64 (of_int n) = Fin (of_int n)"
proof (cases "n = 0")
  case True
  then show ?thesis by (simp add: round64_def)
next
  case False
  let ?a = "\<bar>of_int n\<bar> :: rat"
  let ?e = "ilog2 ?a"
  have apos: "0 < ?a" using False by simp
  have alt: "?a < 2 powi 53" using assms
    by (metis of_int_abs of_int_less_iff of_int_numeral of_int_power power_int_numeral)
  have "2 powi ?e \<le> ?a" using ilog2_bounds[OF apos] by simp
  then have "(2::rat) powi ?e < 2 powi 53" using alt by simp
  then have e: "?e < 53"
    using power_int_increasing[of 53 ?e "2::rat"] by (cases "?e < 53") auto
  let ?k = "52 - max ?e (- 1022)"
  have k: "0 \<le> ?k" using e by simp
  let ?u = "(2::rat) powi (max ?e (- 1022) - 52)"
  have u: "?u = 1 / 2 ^ nat ?k"
    using k by (simp add: power_int_def field_simps) 
  have "?a / ?u = of_int (\<bar>n\<bar> * 2 ^ nat ?k)" by (simp add: u)
  then have r: "of_int (round_half_even (?a / ?u)) * ?u = ?a"
    by (simp only: round_half_even_int) (simp add: u)
  show ?thesis
    using False e r by (simp add: round64_def Let_def abs_if split: if_splits)
qed

section \<open>Timecode parsing\<close>

lemma is_digit_in_10_iff: "is_digit_in 10 c \<longleftrightarrow> c \<in> set ''0123456789''"
proof -
  have *: "\<And>k. (c = k) = ((of_char c :: nat) = of_char k)" by simp
  show ?thesis
    unfolding is_digit_in_def digit_of_def Let_def
    apply (simp only: set_simps insert_iff empty_iff *[of "CHR ''0''"] *[of "CHR ''1''"] *[of "CHR ''2''"]  *[of "CHR ''3''"] *[of "CHR ''4''"] *[of "CHR ''5''"] *[of "CHR ''6''"] *[of "CHR ''7''"] *[of "CHR ''8''"] *[of "CHR ''9''"])
    apply (simp split: option.splits)
    apply arith
    done
qed

lemma decimal_digits_iff: "decimal_digits ds \<longleftrightarrow> ds \<noteq> [] \<and> list_all (is_digit_in 10) ds"
  unfolding decimal_digits_def list_all_iff is_digit_in_10_iff by blast

lemma decimal_digits_no_colon: "decimal_digits ds \<Longrightarrow> CHR '':'' \<notin> set ds"
  by (auto simp: decimal_digits_def)

lemma signed_digits_no_colon: "decimal_digits ds \<Longrightarrow> CHR '':'' \<notin> set (signed_digits n ds)"
  by (auto simp: decimal_digits_def signed_digits_def)

lemma length_split_on: "length (split_on c s) = Suc (count_list s c)"
  by (induction s) (auto split: list.splits)

lemma split_on_no_sep: "c \<notin> set p \<Longrightarrow> split_on c p = [p]"
  by (induction p) auto

lemma split_on_append: "c \<notin> set p \<Longrightarrow> split_on c (p @ c # rest) = p # split_on c rest"
  by (induction p) auto

lemma split_on_three:
  assumes "c \<notin> set p" "c \<notin> set q" "c \<notin> set r"
  shows "split_on c (p @ [c] @ q @ [c] @ r) = [p, q, r]"
  using assms by (simp add: split_on_append split_on_no_sep)

lemma split_on_two:
  assumes "c \<notin> set p" "c \<notin> set q"
  shows "split_on c (p @ [c] @ q) = [p, q]"
  using assms by (simp add: split_on_append split_on_no_sep)

lemma timeToSeconds_three:
  "split_on CHR '':'' t = [p, q, r] \<Longrightarrow>
   timeToSeconds t = Inr (js_add (js_add (js_mul (Number p) (Fin 3600)) (js_mul (Number q) (Fin 60))) (Number r))"
  by (simp add: timeToSeconds_def)

lemma timeToSeconds_two:
  "split_on CHR '':'' t = [q, r] \<Longrightarrow>
   timeToSeconds t = Inr (js_add (js_mul (Number q) (Fin 60)) (Number r))"
  by (simp add: timeToSeconds_def)

lemma timeToSeconds_one:
  "split_on CHR '':'' t = [r] \<Longrightarrow> timeToSeconds t = Inr (Number r)"
  by (simp add: timeToSeconds_def)

lemma timeToSeconds_throws_iff:
  "timeToSeconds t = Inl e \<longleftrightarrow> 3 \<le> count_list t CHR '':'' \<and> e = InvalidTimeFormat t"
  by (auto simp: timeToSeconds_def Let_def length_split_on)


lemma digit_not_ws: "is_digit_in 10 c \<Longrightarrow> \<not> is_ws c"
  by (auto simp: is_digit_in_def digit_of_def is_ws_def Let_def split: if_splits option.splits)

lemma dropWhile_hd: "xs \<noteq> [] \<Longrightarrow> \<not> P (hd xs) \<Longrightarrow> dropWhile P xs = xs"
  by (cases xs) auto

lemma trim_digits:
  assumes "ds \<noteq> []" "list_all (is_digit_in 10) ds"
  shows "trim ds = ds"
proof -
  have h: "\<not> is_ws (hd ds)" using assms by (cases ds) (auto simp: digit_not_ws)
  have l: "\<not> is_ws (last ds)" using assms by (auto simp: digit_not_ws list_all_iff)
  have "dropWhile is_ws ds = ds" using assms(1) h by (rule dropWhile_hd)
  moreover have "dropWhile is_ws (rev ds) = rev ds"
    using assms(1) l by (intro dropWhile_hd) (auto simp: hd_rev)
  ultimately show ?thesis by (simp add: trim_def)
qed

lemma digits_val_snoc:
  "digits_val b (xs @ [c]) =
     digits_val b xs * int b + (case digit_of c of None \<Rightarrow> 0 | Some d \<Rightarrow> int d)"
  by (simp add: digits_val_def)

lemma digit_of_dec: "is_digit_in 10 c \<Longrightarrow> digit_of c = Some (of_char c - 48)"
  by (auto simp: is_digit_in_def digit_of_def Let_def split: if_splits option.splits)

lemma digits_val_Cons:
  "digits_val b (c # cs) =
     (case digit_of c of None \<Rightarrow> 0 | Some d \<Rightarrow> int d) * int b ^ length cs + digits_val b cs"
proof (induction cs rule: rev_induct)
  case Nil
  then show ?case by (simp add: digits_val_def)
next
  case (snoc x xs)
  have "digits_val b (c # xs @ [x]) = digits_val b ((c # xs) @ [x])" by simp
  also have "\<dots> = digits_val b (c # xs) * int b + (case digit_of x of None \<Rightarrow> 0 | Some d \<Rightarrow> int d)"
    by (rule digits_val_snoc)
  finally show ?case
    by (simp add: snoc digits_val_snoc algebra_simps)
qed

lemma digits_val_dec: "list_all (is_digit_in 10) ds \<Longrightarrow> digits_val 10 ds = int (dec ds)"
proof (induction ds)
  case Nil
  then show ?case by (simp add: digits_val_def)
next
  case (Cons c cs)
  then show ?case by (simp add: digits_val_Cons digit_of_dec)
qed

lemma radix_prefix_digits:
  "list_all (is_digit_in 10) ds \<Longrightarrow> radix_prefix ds = None"
  by (auto simp: radix_prefix_def is_digit_in_10_iff split: list.splits)

lemma digits_not_Infinity: "list_all (is_digit_in 10) ds \<Longrightarrow> ds \<noteq> ''Infinity''"
  by (auto simp: is_digit_in_10_iff)

lemma round64_nat: "n < 2 ^ 53 \<Longrightarrow> round64 (of_nat n) = Fin (of_nat n)"
  using round64_int[of "int n"] by simp

lemma unsigned_decimal_digits:
  assumes "ds \<noteq> []" "list_all (is_digit_in 10) ds" "dec ds < 2 ^ 53"
  shows "unsigned_decimal ds = Fin (of_nat (dec ds))"
proof -
  have t: "takeWhile (is_digit_in 10) ds = ds" using assms(2) by (simp add: list_all_iff)
  have d: "dropWhile (is_digit_in 10) ds = []" using assms(2) by (simp add: list_all_iff)
  have "unsigned_decimal ds = round64 (of_nat (dec ds))"
    using assms(1) digits_not_Infinity[OF assms(2)]
    by (simp add: unsigned_decimal_def t d exponent_part_def scale10_def digits_val_dec[OF assms(2)])
  then show ?thesis by (simp add: round64_nat[OF assms(3)])
qed

lemma Number_digits:
  assumes "decimal_digits ds" "dec ds < 2 ^ 53"
  shows "Number ds = Fin (of_nat (dec ds))"
proof -
  have ne: "ds \<noteq> []" and all: "list_all (is_digit_in 10) ds"
    using assms(1) by (simp_all add: decimal_digits_iff)
  obtain c t where ct: "ds = c # t" using ne by (cases ds) auto
  have "is_digit_in 10 c" using all ct by simp
  then have sign: "c \<noteq> CHR ''-''" "c \<noteq> CHR ''+''" by (auto simp: is_digit_in_10_iff)
  have "Number ds = unsigned_decimal ds"
    unfolding Number_def Let_def trim_digits[OF ne all] radix_prefix_digits[OF all]
    using sign by (simp add: ct)
  then show ?thesis
    by (simp add: unsigned_decimal_digits[OF ne all assms(2)])
qed

lemma Number_minus_digits:
  assumes "decimal_digits ds" "dec ds < 2 ^ 53"
  shows "Number (CHR ''-'' # ds) = Fin (- of_nat (dec ds))"
proof -
  have ne: "ds \<noteq> []" and all: "list_all (is_digit_in 10) ds"
    using assms(1) by (simp_all add: decimal_digits_iff)
  have l: "\<not> is_ws (last ds)" using ne all by (auto simp: digit_not_ws list_all_iff)
  have m: "\<not> is_ws CHR ''-''" by (simp add: is_ws_def)
  have "dropWhile is_ws (rev ds @ [CHR ''-'']) = rev ds @ [CHR ''-'']"
    using ne l by (intro dropWhile_hd) (auto simp: hd_rev hd_append)
  then have tr: "trim (CHR ''-'' # ds) = CHR ''-'' # ds"
    using m by (simp add: trim_def)
  obtain c t where ct: "ds = c # t" using ne by (cases ds) auto
  have rp: "radix_prefix (CHR ''-'' # ds) = None"
    by (simp add: radix_prefix_def ct)
  have "Number (CHR ''-'' # ds) = js_neg (unsigned_decimal ds)"
    unfolding Number_def Let_def tr rp by simp
  then show ?thesis
    by (simp add: unsigned_decimal_digits[OF ne all assms(2)])
qed

lemma Number_signed_digits:
  "decimal_digits ds \<Longrightarrow> dec ds < 2 ^ 53 \<Longrightarrow>
   Number (signed_digits neg ds) = Fin (of_int (signed_val neg ds))"
  by (simp add: signed_digits_def signed_val_def Number_digits Number_minus_digits)

lemma abs_signed_val: "\<bar>signed_val neg ds\<bar> = int (dec ds)"
  by (simp add: signed_val_def)

lemma js_mul_int:
  "\<bar>x * y\<bar> < 2 ^ 53 \<Longrightarrow> js_mul (Fin (of_int x)) (Fin (of_int y)) = Fin (of_int (x * y))"
  using round64_int[of "x * y"] by simp

lemma js_add_int:
  "\<bar>x + y\<bar> < 2 ^ 53 \<Longrightarrow> js_add (Fin (of_int x)) (Fin (of_int y)) = Fin (of_int (x + y))"
  using round64_int[of "x + y"] by simp

text \<open>
  The weighted sums of the source on integer parts, as long as the sum of the
  magnitudes stays below \<open>2^53\<close>: every intermediate value is then an integer that
  binary64 holds exactly.
\<close>

lemma weighted_sum3:
  assumes "\<bar>x\<bar> * 3600 + \<bar>y\<bar> * 60 + \<bar>z\<bar> < 2 ^ 53"
  shows "js_add (js_add (js_mul (Fin (of_int x)) (Fin 3600)) (js_mul (Fin (of_int y)) (Fin 60)))
           (Fin (of_int z)) = Fin (of_int (x * 3600 + y * 60 + z))"
proof -
  have 1: "\<bar>x * 3600\<bar> < 2 ^ 53" using assms by (simp add: abs_mult)
  have 2: "\<bar>y * 60\<bar> < 2 ^ 53" using assms by (simp add: abs_mult)
  have 3: "\<bar>x * 3600 + y * 60\<bar> < 2 ^ 53" using assms by (simp add: abs_mult)
  have 4: "\<bar>x * 3600 + y * 60 + z\<bar> < 2 ^ 53" using assms by (simp add: abs_mult)
  have m1: "js_mul (Fin (of_int x)) (Fin 3600) = Fin (of_int (x * 3600))"
    using js_mul_int[OF 1] by simp
  have m2: "js_mul (Fin (of_int y)) (Fin 60) = Fin (of_int (y * 60))"
    using js_mul_int[OF 2] by simp
  show ?thesis
    unfolding m1 m2 js_add_int[OF 3] js_add_int[OF 4] ..
qed

lemma weighted_sum2:
  assumes "\<bar>y\<bar> * 60 + \<bar>z\<bar> < 2 ^ 53"
  shows "js_add (js_mul (Fin (of_int y)) (Fin 60)) (Fin (of_int z)) = Fin (of_int (y * 60 + z))"
proof -
  have 2: "\<bar>y * 60\<bar> < 2 ^ 53" using assms by (simp add: abs_mult)
  have 4: "\<bar>y * 60 + z\<bar> < 2 ^ 53" using assms by (simp add: abs_mult)
  have m2: "js_mul (Fin (of_int y)) (Fin 60) = Fin (of_int (y * 60))"
    using js_mul_int[OF 2] by simp
  show ?thesis
    unfolding m2 js_add_int[OF 4] ..
qed

lemma timeToSeconds_examples:
  "timeToSeconds ''01:02:03'' = Inr (Fin 3723)"
  "timeToSeconds ''02:03'' = Inr (Fin 123)"
  "timeToSeconds ''45'' = Inr (Fin 45)"
  "timeToSeconds ''99:99'' = Inr (Fin 6039)"
  "timeToSeconds ''00:99'' = Inr (Fin 99)"
  by code_simp+

text \<open>
  Binary64 at work: \<open>4.1 * 60\<close> is just below 246, so \<open>"4:6"\<close> is after \<open>"4.1:0"\<close>;
  \<open>2^53 + 1\<close> is not a binary64 value and reads as \<open>2^53\<close>; \<open>0.3 - 0.1\<close> is not \<open>0.2\<close>;
  a literal beyond the range is an infinity.
\<close>

lemma binary64_examples:
  "timeToSeconds ''4.1:0'' = Inr (Fin (8655355533852671 / 35184372088832))"
  "calculateDuration (Some (JStr ''4.1:0'')) (Some (JStr ''4:6'')) = Inr (Fin (1 / 35184372088832))"
  "Number ''9007199254740993'' = Fin 9007199254740992"
  "calculateDuration (Some (JStr ''9007199254740992'')) (Some (JStr ''9007199254740993''))
     = Inl EndNotAfterStart"
  "calculateDuration (Some (JStr ''0.1'')) (Some (JStr ''0.3''))
     = Inr (Fin (7205759403792793 / 36028797018963968))"
  by code_simp+

lemma timeToSeconds_accepts:
  "count_list t CHR '':'' \<le> 2 \<Longrightarrow> \<exists>v. timeToSeconds t = Inr v"
  by (cases "timeToSeconds t") (auto simp: timeToSeconds_throws_iff)

text \<open>
  The three shapes on parts that are decimal digit strings, for values below \<open>2^53\<close>:
  \<open>h*3600 + m*60 + s\<close>, \<open>m*60 + s\<close> and \<open>s\<close>; and the parse error on four or more
  parts.
\<close>

lemma timeToSeconds_digit_shapes:
  assumes "decimal_digits h" "decimal_digits m" "decimal_digits s"
    and "dec h * 3600 + dec m * 60 + dec s < 2 ^ 53"
  shows "timeToSeconds (h @ '':'' @ m @ '':'' @ s) = Inr (Fin (of_nat (dec h * 3600 + dec m * 60 + dec s)))"
    and "timeToSeconds (m @ '':'' @ s) = Inr (Fin (of_nat (dec m * 60 + dec s)))"
    and "timeToSeconds s = Inr (Fin (of_nat (dec s)))"
proof -
  note nc = assms(1-3)[THEN decimal_digits_no_colon]
  have b: "dec h < 2 ^ 53" "dec m < 2 ^ 53" "dec s < 2 ^ 53" using assms(4) by simp_all
  have N: "Number h = Fin (of_int (int (dec h)))" "Number m = Fin (of_int (int (dec m)))"
    "Number s = Fin (of_int (int (dec s)))"
    using assms(1-3) b by (simp_all add: Number_digits)
  have "int (dec h * 3600 + dec m * 60 + dec s) < int (2 ^ 53)"
    using assms(4) by (rule iffD2[OF of_nat_less_iff])
  then have w3: "\<bar>int (dec h)\<bar> * 3600 + \<bar>int (dec m)\<bar> * 60 + \<bar>int (dec s)\<bar> < 2 ^ 53"
    by simp
  have w2: "\<bar>int (dec m)\<bar> * 60 + \<bar>int (dec s)\<bar> < 2 ^ 53"
    using w3 by simp
  show "timeToSeconds (h @ '':'' @ m @ '':'' @ s) = Inr (Fin (of_nat (dec h * 3600 + dec m * 60 + dec s)))"
    unfolding timeToSeconds_three[OF split_on_three[OF nc]] N weighted_sum3[OF w3] by simp
  show "timeToSeconds (m @ '':'' @ s) = Inr (Fin (of_nat (dec m * 60 + dec s)))"
    unfolding timeToSeconds_two[OF split_on_two[OF nc(2,3)]] N weighted_sum2[OF w2] by simp
  show "timeToSeconds s = Inr (Fin (of_nat (dec s)))"
    unfolding timeToSeconds_one[OF split_on_no_sep[OF nc(3)]] N by simp
qed

text \<open>
  Claim C2 does not hold on the code. \<open>"abc"\<close> and the empty string are none of the
  three shapes, and the call returns NaN for the first and 0 for the second instead of
  throwing the error whose own message names the three shapes.
\<close>

theorem timeToSeconds_nonnumeric_accepted:
  "timeToSeconds ''abc'' = Inr NaN \<and> timeToSeconds [] = Inr (Fin 0)"
  by code_simp

theorem timeToSeconds_nonnumeric_accepted_witness:
  "timeToSeconds ''abc'' \<noteq> Inl (InvalidTimeFormat ''abc'')
   \<and> timeToSeconds [] \<noteq> Inl (InvalidTimeFormat [])"
  using timeToSeconds_nonnumeric_accepted by simp

text \<open>
  Claim C10. No component is checked against a range. Every string of one, two or three
  colon-separated parts is accepted, whatever the parts are. For parts that are decimal
  digit strings with or without a minus sign, the result is the weighted sum of the
  parts' values, of any size as long as the sum of the magnitudes stays below \<open>2^53\<close>,
  where binary64 is exact; \<open>"99:99"\<close> gives 6039 and \<open>"00:99"\<close> gives 99.
\<close>

theorem timeToSeconds_no_range_check:
  assumes "decimal_digits h" "decimal_digits m" "decimal_digits s"
    and "dec h * 3600 + dec m * 60 + dec s < 2 ^ 53"
  shows "timeToSeconds (signed_digits nh h @ '':'' @ signed_digits nm m @ '':'' @ signed_digits ns s)
           = Inr (Fin (of_int (signed_val nh h * 3600 + signed_val nm m * 60 + signed_val ns s)))
       \<and> timeToSeconds (signed_digits nm m @ '':'' @ signed_digits ns s)
           = Inr (Fin (of_int (signed_val nm m * 60 + signed_val ns s)))
       \<and> timeToSeconds (signed_digits ns s) = Inr (Fin (of_int (signed_val ns s)))
       \<and> timeToSeconds ''99:99'' = Inr (Fin 6039)
       \<and> timeToSeconds ''00:99'' = Inr (Fin 99)
       \<and> (count_list t CHR '':'' \<le> 2 \<longrightarrow> (\<exists>v. timeToSeconds t = Inr v))"
proof -
  have nc: "CHR '':'' \<notin> set (signed_digits nh h)" "CHR '':'' \<notin> set (signed_digits nm m)"
    "CHR '':'' \<notin> set (signed_digits ns s)"
    using assms(1-3) by (simp_all add: signed_digits_no_colon)
  have b: "dec h < 2 ^ 53" "dec m < 2 ^ 53" "dec s < 2 ^ 53" using assms(4) by simp_all
  have N: "Number (signed_digits nh h) = Fin (of_int (signed_val nh h))"
    "Number (signed_digits nm m) = Fin (of_int (signed_val nm m))"
    "Number (signed_digits ns s) = Fin (of_int (signed_val ns s))"
    using assms(1-3) b by (simp_all add: Number_signed_digits)
  have "int (dec h * 3600 + dec m * 60 + dec s) < int (2 ^ 53)"
    using assms(4) by (rule iffD2[OF of_nat_less_iff])
  then have w3: "\<bar>signed_val nh h\<bar> * 3600 + \<bar>signed_val nm m\<bar> * 60 + \<bar>signed_val ns s\<bar> < 2 ^ 53"
    unfolding abs_signed_val by simp
  have w2: "\<bar>signed_val nm m\<bar> * 60 + \<bar>signed_val ns s\<bar> < 2 ^ 53"
    using w3 by simp
  have "timeToSeconds (signed_digits nh h @ '':'' @ signed_digits nm m @ '':'' @ signed_digits ns s)
           = Inr (Fin (of_int (signed_val nh h * 3600 + signed_val nm m * 60 + signed_val ns s)))"
    unfolding timeToSeconds_three[OF split_on_three[OF nc]] N weighted_sum3[OF w3] ..
  moreover have "timeToSeconds (signed_digits nm m @ '':'' @ signed_digits ns s)
           = Inr (Fin (of_int (signed_val nm m * 60 + signed_val ns s)))"
    unfolding timeToSeconds_two[OF split_on_two[OF nc(2,3)]] N weighted_sum2[OF w2] ..
  moreover have "timeToSeconds (signed_digits ns s) = Inr (Fin (of_int (signed_val ns s)))"
    unfolding timeToSeconds_one[OF split_on_no_sep[OF nc(3)]] N ..
  ultimately show ?thesis using timeToSeconds_examples(4,5) timeToSeconds_accepts by blast
qed

theorem timeToSeconds_no_range_check_witness:
  "decimal_digits ''1'' \<and> decimal_digits ''75'' \<and> decimal_digits ''90''
   \<and> dec ''1'' * 3600 + dec ''75'' * 60 + dec ''90'' < 2 ^ 53
   \<and> timeToSeconds ''1:75:90'' = Inr (Fin 8190)
   \<and> timeToSeconds ''-1:-75:90'' = Inr (Fin (- 8010))
   \<and> timeToSeconds ''75:-90'' = Inr (Fin 4410)
   \<and> timeToSeconds ''-90'' = Inr (Fin (- 90))
   \<and> count_list ''1.5:-7'' CHR '':'' \<le> 2 \<and> (\<exists>v. timeToSeconds ''1.5:-7'' = Inr v)"
proof -
  have d: "decimal_digits ''1''" "decimal_digits ''75''" "decimal_digits ''90''"
    by (simp_all add: decimal_digits_def)
  have b: "dec ''1'' * 3600 + dec ''75'' * 60 + dec ''90'' < 2 ^ 53" by simp
  have "timeToSeconds ''1:75:90'' = Inr (Fin 8190)"
    using timeToSeconds_no_range_check[OF d b, of False False False]
    by (simp add: signed_digits_def signed_val_def)
  moreover have "timeToSeconds ''-1:-75:90'' = Inr (Fin (- 8010))
     \<and> timeToSeconds ''75:-90'' = Inr (Fin 4410) \<and> timeToSeconds ''-90'' = Inr (Fin (- 90))"
    using timeToSeconds_no_range_check[OF d b, of True True False]
      timeToSeconds_no_range_check[OF d b, of False False True]
    by (simp add: signed_digits_def signed_val_def)
  moreover have "count_list ''1.5:-7'' CHR '':'' \<le> 2 \<and> (\<exists>v. timeToSeconds ''1.5:-7'' = Inr v)"
    using timeToSeconds_no_range_check[OF d b, of _ _ _ "''1.5:-7''"] by simp
  ultimately show ?thesis using d b by blast
qed

section \<open>Identifier extraction\<close>

lemma one_char_Some:
  "one_char P s cs k = Some res \<Longrightarrow> \<exists>x xs. s = x # xs \<and> P x \<and> k xs cs = Some res"
  by (auto simp: one_char_def split: list.splits if_splits)

lemma one_char_sound:
  assumes "one_char P s cs k = Some res" and "\<And>x. P x \<Longrightarrow> rx_den r [x] cs cs"
  shows "\<exists>u s' cs'. s = u @ s' \<and> rx_den r u cs cs' \<and> k s' cs' = Some res"
proof -
  from assms(1) obtain x xs where x: "s = x # xs" "P x" "k xs cs = Some res"
    using one_char_Some by blast
  have "s = [x] @ xs" using x(1) by simp
  moreover have "rx_den r [x] cs cs" using x(2) by (rule assms(2))
  ultimately show ?thesis using x(3) by blast
qed

lemma rx_match_sound:
  "rx_match r s cs k = Some res \<Longrightarrow>
   \<exists>u s' cs'. s = u @ s' \<and> rx_den r u cs cs' \<and> k s' cs' = Some res"
proof (induction r s cs k arbitrary: res rule: rx_match.induct)
  case (1 s cs k)
  have "s = [] @ s" by simp
  moreover have "rx_den Eps [] cs cs" by (rule den_Eps)
  moreover have "k s cs = Some res" using 1 by simp
  ultimately show ?case by blast
next
  case (2 c s cs k)
  then have "one_char (\<lambda>x. x = c) s cs k = Some res" by simp
  then show ?case by (rule one_char_sound) (simp add: den_Lit)
next
  case (3 s cs k)
  then have "one_char (\<lambda>x. \<not> is_line_terminator x) s cs k = Some res" by simp
  then show ?case by (rule one_char_sound) (simp add: den_Dot)
next
  case (4 s cs k)
  then have "one_char is_word_char s cs k = Some res" by simp
  then show ?case by (rule one_char_sound) (simp add: den_WordCh)
next
  case (5 ys s cs k)
  then have "one_char (\<lambda>x. x \<notin> set ys) s cs k = Some res" by simp
  then show ?case by (rule one_char_sound) (simp add: den_NoneOf)
next
  case (6 a b s cs k)
  from "6.prems" have "rx_match a s cs (\<lambda>s' cs'. rx_match b s' cs' k) = Some res" by simp
  from "6.IH"(2)[OF this] obtain u s1 cs1 where
    a: "s = u @ s1" "rx_den a u cs cs1" "rx_match b s1 cs1 k = Some res" by blast
  from "6.IH"(1)[OF a(3)] obtain v s2 cs2 where
    b: "s1 = v @ s2" "rx_den b v cs1 cs2" "k s2 cs2 = Some res" by blast
  have "s = (u @ v) @ s2" using a(1) b(1) by simp
  moreover have "rx_den (Cat a b) (u @ v) cs cs2" using a(2) b(2) by (rule den_Cat)
  ultimately show ?case using b(3) by blast
next
  case (7 a b s cs k)
  show ?case
  proof (cases "rx_match a s cs k")
    case None
    with "7.prems" have "rx_match b s cs k = Some res" by simp
    from "7.IH"(2)[OF None this] show ?thesis using den_OrR by blast
  next
    case (Some r)
    with "7.prems" have "rx_match a s cs k = Some res" by simp
    from "7.IH"(1)[OF this] show ?thesis using den_OrL by blast
  qed
next
  case (8 a s cs k)
  let ?k = "\<lambda>s' cs'. if length s' < length s then rx_match (Star a) s' cs' k else None"
  show ?case
  proof (cases "rx_match a s cs ?k")
    case None
    with "8.prems" have "k s cs = Some res" by simp
    moreover have "s = [] @ s" by simp
    moreover have "rx_den (Star a) [] cs cs" by (rule den_Star0)
    ultimately show ?thesis by blast
  next
    case (Some r)
    with "8.prems" have "rx_match a s cs ?k = Some res" by simp
    from "8.IH"(2)[OF this] obtain u s1 cs1 where
      a: "s = u @ s1" "rx_den a u cs cs1" "?k s1 cs1 = Some res" by blast
    from a(3) have lt: "length s1 < length s" and m: "rx_match (Star a) s1 cs1 k = Some res"
      by (auto split: if_splits)
    from "8.IH"(1)[OF lt m] obtain v s2 cs2 where
      b: "s1 = v @ s2" "rx_den (Star a) v cs1 cs2" "k s2 cs2 = Some res" by blast
    have "s = (u @ v) @ s2" using a(1) b(1) by simp
    moreover have "rx_den (Star a) (u @ v) cs cs2" using a(2) b(2) by (rule den_StarS)
    ultimately show ?thesis using b(3) by blast
  qed
next
  case (9 n a s cs k)
  let ?k = "\<lambda>s' cs'. k s' (cs'(n \<mapsto> take (length s - length s') s))"
  from "9.prems" have "rx_match a s cs ?k = Some res" by simp
  from "9.IH"[OF this] obtain u s1 cs1 where
    a: "s = u @ s1" "rx_den a u cs cs1" "?k s1 cs1 = Some res" by blast
  have "take (length s - length s1) s = u" using a(1) by simp
  with a(3) have "k s1 (cs1(n \<mapsto> u)) = Some res" by simp
  moreover have "rx_den (Group n a) u cs (cs1(n \<mapsto> u))" using a(2) by (rule den_Group)
  ultimately show ?case using a(1) by blast
qed

inductive_cases den_EpsE: "rx_den Eps u cs cs'"
inductive_cases den_LitE: "rx_den (Lit c) u cs cs'"
inductive_cases den_DotE: "rx_den Dot u cs cs'"
inductive_cases den_WordChE: "rx_den WordCh u cs cs'"
inductive_cases den_NoneOfE: "rx_den (NoneOf xs) u cs cs'"
inductive_cases den_CatE: "rx_den (Cat a b) u cs cs'"
inductive_cases den_OrE: "rx_den (Or a b) u cs cs'"
inductive_cases den_GroupE: "rx_den (Group n a) u cs cs'"

lemma den_lits: "rx_den (lits str) u cs cs' \<Longrightarrow> u = str \<and> cs' = cs"
proof (induction str arbitrary: u cs rule: lits.induct)
  case 1
  then show ?case by (auto elim: den_EpsE)
next
  case (2 c)
  then show ?case by (auto elim: den_LitE)
next
  case (3 c v va)
  from "3.prems" have "rx_den (Cat (Lit c) (lits (v # va))) u cs cs'" by simp
  then obtain u1 u2 c1 where "u = u1 @ u2" "rx_den (Lit c) u1 cs c1" "rx_den (lits (v # va)) u2 c1 cs'"
    by (auto elim: den_CatE)
  moreover from this have "u1 = [c]" "c1 = cs" by (auto elim: den_LitE)
  ultimately show ?case using "3.IH" by auto
qed

lemma den_Star_NoneOf:
  "rx_den r u cs cs' \<Longrightarrow> r = Star (NoneOf xs) \<Longrightarrow> set u \<inter> set xs = {} \<and> cs' = cs"
proof (induction rule: rx_den.induct)
  case (den_StarS a u cs cs1 v cs2)
  then have "rx_den (NoneOf xs) u cs cs1" by simp
  then have "set u \<inter> set xs = {} \<and> cs1 = cs" by (auto elim: den_NoneOfE)
  then show ?case using den_StarS by auto
qed auto

lemma den_Star_Dot:
  "rx_den r u cs cs' \<Longrightarrow> r = Star Dot \<Longrightarrow> cs' = cs"
proof (induction rule: rx_den.induct)
  case (den_StarS a u cs cs1 v cs2)
  then have "rx_den Dot u cs cs1" by simp
  then have "cs1 = cs" by (auto elim: den_DotE)
  then show ?case using den_StarS by auto
qed auto

lemma den_markers:
  assumes "rx_den (Or (Cat (lits ''youtu'') (Cat Dot (lits ''be/'')))
              (Or (lits ''v/'')
              (Or (Cat (lits ''u/'') (Cat WordCh (Lit CHR ''/'')))
              (Or (lits ''embed/'')
              (Or (lits ''watch?v='')
                  (lits ''&v='')))))) u cs cs'"
  shows "marker u \<and> cs' = cs"
  using assms
proof (elim den_OrE)
  assume "rx_den (Cat (lits ''youtu'') (Cat Dot (lits ''be/''))) u cs cs'"
  then obtain u1 u2 u3 c1 c2 where u: "u = u1 @ u2 @ u3" and a: "rx_den (lits ''youtu'') u1 cs c1"
    and b: "rx_den Dot u2 c1 c2" and c: "rx_den (lits ''be/'') u3 c2 cs'"
    by (elim den_CatE) blast
  have "u1 = ''youtu'' \<and> c1 = cs" using a by (rule den_lits)
  moreover have "u3 = ''be/'' \<and> cs' = c2" using c by (rule den_lits)
  moreover have "\<exists>x. \<not> is_line_terminator x \<and> u2 = [x] \<and> c2 = c1"
    using b by (auto elim: den_DotE)
  ultimately show ?thesis using u unfolding marker_def by auto
next
  assume "rx_den (Cat (lits ''u/'') (Cat WordCh (Lit CHR ''/''))) u cs cs'"
  then obtain u1 u2 u3 c1 c2 where u: "u = u1 @ u2 @ u3" and a: "rx_den (lits ''u/'') u1 cs c1"
    and b: "rx_den WordCh u2 c1 c2" and c: "rx_den (Lit CHR ''/'') u3 c2 cs'"
    by (elim den_CatE) blast
  have "u1 = ''u/'' \<and> c1 = cs" using a by (rule den_lits)
  moreover have "u3 = ''/'' \<and> cs' = c2" using c by (auto elim: den_LitE)
  moreover have "\<exists>x. is_word_char x \<and> u2 = [x] \<and> c2 = c1"
    using b by (auto elim: den_WordChE)
  ultimately show ?thesis using u unfolding marker_def by auto
next
  assume "rx_den (lits ''v/'') u cs cs'"
  then have "u = ''v/'' \<and> cs' = cs" by (rule den_lits)
  then show ?thesis unfolding marker_def by simp
next
  assume "rx_den (lits ''embed/'') u cs cs'"
  then have "u = ''embed/'' \<and> cs' = cs" by (rule den_lits)
  then show ?thesis unfolding marker_def by simp
next
  assume "rx_den (lits ''watch?v='') u cs cs'"
  then have "u = ''watch?v='' \<and> cs' = cs" by (rule den_lits)
  then show ?thesis unfolding marker_def by simp
next
  assume "rx_den (lits ''&v='') u cs cs'"
  then have "u = ''&v='' \<and> cs' = cs" by (rule den_lits)
  then show ?thesis unfolding marker_def by simp
qed

lemma match_regExp_sound:
  assumes "match_regExp url = Some m"
  shows "\<exists>pre mk tok rest. url = pre @ mk @ tok @ rest \<and> marker mk
           \<and> set tok \<inter> set ''#&?'' = {} \<and> m 1 = Some mk \<and> m 2 = Some tok"
proof -
  from rx_match_sound[OF assms[unfolded match_regExp_def]]
  obtain u s' where u: "url = u @ s'" "rx_den regExp u (\<lambda>_. None) m"
    by auto
  let ?c0 = "(\<lambda>_. None) :: captures"
  from u(2) obtain u1 u2 u3 u4 c1 c2 c3 g1 g2 where
    parts: "u = u1 @ u2 @ u3 @ u4" and
    d1: "rx_den (Star Dot) u1 ?c0 c1" and
    d2: "rx_den (Group 1 g1) u2 c1 c2" and
    g1: "g1 = Or (Cat (lits ''youtu'') (Cat Dot (lits ''be/'')))
              (Or (lits ''v/'')
              (Or (Cat (lits ''u/'') (Cat WordCh (Lit CHR ''/'')))
              (Or (lits ''embed/'')
              (Or (lits ''watch?v='')
                  (lits ''&v='')))))" and
    d3: "rx_den (Group 2 (Star (NoneOf ''#&?''))) u3 c2 c3" and
    d4: "rx_den (Star Dot) u4 c3 m"
    unfolding regExp_def by (elim den_CatE) blast
  have c1: "c1 = ?c0" using den_Star_Dot[OF d1] by simp
  from d2 obtain c1' where "rx_den g1 u2 c1 c1'" "c2 = c1'(1 \<mapsto> u2)"
    by (auto elim: den_GroupE)
  then have mk: "marker u2" and c2: "c2 = c1(1 \<mapsto> u2)"
    using den_markers[of u2 c1 c1'] unfolding g1 by auto
  from d3 obtain c2' where "rx_den (Star (NoneOf ''#&?'')) u3 c2 c2'" "c3 = c2'(2 \<mapsto> u3)"
    by (auto elim: den_GroupE)
  then have tok: "set u3 \<inter> set ''#&?'' = {}" and c3: "c3 = c2(2 \<mapsto> u3)"
    using den_Star_NoneOf[of "Star (NoneOf ''#&?'')" u3 c2 c2' "''#&?''"] by auto
  have m: "m = c3" using den_Star_Dot[OF d4] by simp
  have "url = u1 @ u2 @ u3 @ (u4 @ s')" using u(1) parts by simp
  moreover have "m 1 = Some u2" "m 2 = Some u3" using m c3 c2 by simp_all
  ultimately show ?thesis using mk tok by blast
qed

lemma getYouTubeId_cases:
  "getYouTubeId url =
     (case captured_token url of
        None \<Rightarrow> Inr None
      | Some tok \<Rightarrow> if length tok = 11 then Inr (Some tok) else Inr None)"
proof (cases "match_regExp url")
  case None
  then show ?thesis by (simp add: getYouTubeId_def captured_token_def)
next
  case (Some m)
  from match_regExp_sound[OF this] obtain tok where "m 2 = Some tok" by blast
  with Some show ?thesis by (simp add: getYouTubeId_def captured_token_def)
qed

text \<open>
  Claim C9. On every string \<open>getYouTubeId\<close> returns \<open>null\<close> or a string of exactly 11
  characters and never throws: the second group always takes part in a match, so
  reading its length cannot fail. The captured token is a piece of the URL that follows
  one of the markers, and when its length is not 11 the result is \<open>null\<close>.
\<close>

theorem getYouTubeId_total:
  "(getYouTubeId url = Inr None \<or> (\<exists>v. getYouTubeId url = Inr (Some v) \<and> length v = 11))
   \<and> (captured_token url = Some tok \<longrightarrow>
        (\<exists>pre mk rest. url = pre @ mk @ tok @ rest \<and> marker mk)
        \<and> (length tok \<noteq> 11 \<longrightarrow> getYouTubeId url = Inr None))"
proof -
  have "\<exists>pre mk rest. url = pre @ mk @ tok @ rest \<and> marker mk" if "captured_token url = Some tok"
  proof -
    from that obtain m where m: "match_regExp url = Some m" "m 2 = Some tok"
      by (auto simp: captured_token_def split: option.splits)
    from match_regExp_sound[OF m(1)] m(2) show ?thesis by auto
  qed
  then show ?thesis
    by (auto simp: getYouTubeId_cases split: option.splits)
qed

lemma captured_token_examples:
  "captured_token ''https://youtu.be/short'' = Some ''short''"
  "captured_token ''https://www.youtube.com/watch?v=FZLadzn5i6Q&t=9'' = Some ''FZLadzn5i6Q''"
  by code_simp+

theorem getYouTubeId_total_witness:
  "captured_token ''https://youtu.be/short'' = Some ''short''
   \<and> (\<exists>pre mk rest. ''https://youtu.be/short'' = pre @ mk @ ''short'' @ rest \<and> marker mk)
   \<and> length ''short'' \<noteq> 11
   \<and> getYouTubeId ''https://youtu.be/short'' = Inr None"
  using getYouTubeId_total[of "''https://youtu.be/short''" "''short''"] captured_token_examples(1)
  by simp

section \<open>One request\<close>

lemma ensure_cached_result:
  "ensure_cached w i url p st =
     (p \<in> files st \<or> downloadOk w i,
      st\<lparr>events := events st @ (if p \<in> files st then [] else [Download url p]),
         files := (if p \<in> files st \<or> downloadOk w i then insert p (files st) else files st)\<rparr>)"
  by (auto simp: ensure_cached_def Let_def insert_absorb)

lemma cut_segment_throw:
  "calculateDuration startTime endTime = Inl e \<Longrightarrow>
   cut_segment w i src startTime endTime seg st =
     (None, st\<lparr>report := report st @ [Skipped (CutError e)]\<rparr>)"
  by (simp add: cut_segment_def)

lemma cut_segment_result:
  "calculateDuration startTime endTime = Inr d \<Longrightarrow>
   cut_segment w i src startTime endTime seg st =
     (None,
      st\<lparr>events := events st @ CutCopy src startTime d seg #
                      (if copyOk w i then [] else [CutReencode src startTime d seg]),
         files := (if copyOk w i \<or> reencodeOk w i then insert seg (files st) else files st),
         cutSegmentPaths := cutSegmentPaths st @ (if copyOk w i \<or> reencodeOk w i then [seg] else []),
         report := report st @ [if copyOk w i \<or> reencodeOk w i then Produced seg
                                else Skipped (CutError ToolError)]\<rparr>)"
  by (simp add: cut_segment_def push_segment_def Let_def)

lemma is_cut_not_other: "is_cut ev \<Longrightarrow> \<not> is_merge ev \<and> \<not> is_download ev"
  by (cases ev) simp_all

lemma cut_segment_effect:
  assumes "cut_segment w i src startTime endTime seg st = (r, st')"
  shows "r = None \<and> files st \<subseteq> files st'
     \<and> (\<exists>evs. events st' = events st @ evs \<and> (\<forall>ev\<in>set evs. is_cut ev \<and> cut_source ev = Some src))
     \<and> (\<exists>x. report st' = report st @ [x] \<and> cutSegmentPaths st' = cutSegmentPaths st @ clips [x]
              \<and> (\<forall>p. x = Produced p \<longrightarrow> p = seg))"
proof (cases "calculateDuration startTime endTime")
  case (Inl e)
  show ?thesis using assms unfolding cut_segment_throw[OF Inl] by auto
next
  case (Inr d)
  show ?thesis using assms unfolding cut_segment_result[OF Inr] by auto
qed

lemma process_task_no_id:
  assumes "field task ''url'' = Some (JStr url)" "getYouTubeId url = Inr None"
  shows "process_task a w i task st = (None, st\<lparr>report := report st @ [Skipped InvalidReference]\<rparr>)"
proof -
  have "task \<noteq> JNull" using assms(1) by auto
  then show ?thesis using assms by (simp add: process_task_def)
qed

lemma process_task_download_failed:
  assumes "field task ''url'' = Some (JStr url)" "getYouTubeId url = Inr (Some v)"
    and "cache_path a w v \<notin> files st" "\<not> downloadOk w i"
  shows "process_task a w i task st =
     (None, st\<lparr>events := events st @ [Download url (cache_path a w v)],
               report := report st @ [Skipped DownloadError]\<rparr>)"
proof -
  have "task \<noteq> JNull" using assms(1) by auto
  then show ?thesis using assms
    by (simp add: process_task_def ensure_cached_result cache_path_def Let_def)
qed

lemma process_task_fetched:
  assumes "field task ''url'' = Some (JStr url)" "getYouTubeId url = Inr (Some v)"
    and "cache_path a w v \<in> files st \<or> downloadOk w i"
  shows "process_task a w i task st =
     cut_segment w i (cache_path a w v) (field task ''startTime'') (field task ''endTime'')
       (segment_path a w i v)
       (st\<lparr>events := events st @ (if cache_path a w v \<in> files st then []
                                   else [Download url (cache_path a w v)]),
           files := insert (cache_path a w v) (files st)\<rparr>)"
proof -
  have "task \<noteq> JNull" using assms(1) by auto
  then show ?thesis using assms
    by (simp add: process_task_def ensure_cached_result cache_path_def segment_path_def Let_def)
qed

lemma process_task_cases:
  obtains (crash) e where "process_task a w i task st = (Some e, st)"
  | (no_id) url where "field task ''url'' = Some (JStr url)" "getYouTubeId url = Inr None"
  | (download_failed) url v where "field task ''url'' = Some (JStr url)"
      "getYouTubeId url = Inr (Some v)" "cache_path a w v \<notin> files st" "\<not> downloadOk w i"
  | (fetched) url v where "field task ''url'' = Some (JStr url)"
      "getYouTubeId url = Inr (Some v)" "cache_path a w v \<in> files st \<or> downloadOk w i"
proof (cases "field task ''url''")
  case None
  then have "process_task a w i task st = (Some TypeError, st)" by (simp add: process_task_def)
  then show ?thesis by (rule crash)
next
  case (Some j)
  show ?thesis
  proof (cases "\<exists>url. j = JStr url")
    case False
    then have "process_task a w i task st = (Some TypeError, st)"
      using Some by (cases j) (simp_all add: process_task_def)
    then show ?thesis by (rule crash)
  next
    case True
    then obtain url where u: "field task ''url'' = Some (JStr url)" using Some by auto
    then have nn: "task \<noteq> JNull" by auto
    show ?thesis
    proof (cases "getYouTubeId url")
      case (Inl e)
      then have "process_task a w i task st = (Some e, st)"
        using u nn by (simp add: process_task_def)
      then show ?thesis by (rule crash)
    next
      case (Inr r)
      then show ?thesis using u no_id download_failed fetched by (cases r) auto
    qed
  qed
qed

lemma process_task_effect:
  assumes "process_task a w i task st = (r, st')"
  shows "files st \<subseteq> files st'
     \<and> (\<exists>evs. events st' = events st @ evs \<and> (\<forall>ev\<in>set evs. \<not> is_merge ev))
     \<and> (\<exists>xs. report st' = report st @ xs \<and> cutSegmentPaths st' = cutSegmentPaths st @ clips xs
              \<and> (r = None \<longrightarrow> (\<exists>x. xs = [x] \<and> (\<forall>p. x = Produced p \<longrightarrow> (\<exists>v. p = segment_path a w i v)))))"
proof (cases rule: process_task_cases[of a w i task st])
  case (crash e)
  then show ?thesis using assms by auto
next
  case (no_id url)
  show ?thesis using assms unfolding process_task_no_id[OF no_id] by auto
next
  case (download_failed url v)
  show ?thesis using assms unfolding process_task_download_failed[OF download_failed] by auto
next
  case (fetched url v)
  let ?st1 = "st\<lparr>events := events st @ (if cache_path a w v \<in> files st then []
                                   else [Download url (cache_path a w v)]),
           files := insert (cache_path a w v) (files st)\<rparr>"
  from assms have c: "cut_segment w i (cache_path a w v) (field task ''startTime'')
      (field task ''endTime'') (segment_path a w i v) ?st1 = (r, st')"
    unfolding process_task_fetched[OF fetched] .
  from cut_segment_effect[OF c] obtain evs x where
    e: "r = None" "files ?st1 \<subseteq> files st'" "events st' = events ?st1 @ evs"
      "\<forall>ev\<in>set evs. is_cut ev \<and> cut_source ev = Some (cache_path a w v)"
      "report st' = report ?st1 @ [x]" "cutSegmentPaths st' = cutSegmentPaths ?st1 @ clips [x]"
      "\<forall>p. x = Produced p \<longrightarrow> p = segment_path a w i v"
    by blast
  have "files st \<subseteq> files st'" using e(2) by auto
  moreover have "\<exists>evs'. events st' = events st @ evs' \<and> (\<forall>ev\<in>set evs'. \<not> is_merge ev)"
  proof (cases "cache_path a w v \<in> files st")
    case True
    then have "events st' = events st @ evs" using e(3) by simp
    moreover have "\<forall>ev\<in>set evs. \<not> is_merge ev" using e(4) by (auto dest: is_cut_not_other)
    ultimately show ?thesis by blast
  next
    case False
    then have "events st' = events st @ (Download url (cache_path a w v) # evs)" using e(3) by simp
    moreover have "\<forall>ev\<in>set (Download url (cache_path a w v) # evs). \<not> is_merge ev"
      using e(4) by (auto dest: is_cut_not_other)
    ultimately show ?thesis by blast
  qed
  moreover have "report st' = report st @ [x] \<and> cutSegmentPaths st' = cutSegmentPaths st @ clips [x]"
    using e(5,6) by simp
  moreover have "\<forall>p. x = Produced p \<longrightarrow> (\<exists>v. p = segment_path a w i v)" using e(7) by blast
  ultimately show ?thesis by blast
qed

lemma process_task_known_id:
  assumes "field task ''url'' = Some (JStr url)" "getYouTubeId url = Inr (Some v)"
    and "process_task a w i task st = (r, st')"
  shows "r = None
     \<and> (\<exists>evs. events st' = events st @ (if cache_path a w v \<in> files st then []
                                         else [Download url (cache_path a w v)]) @ evs
            \<and> (\<forall>ev\<in>set evs. is_cut ev \<and> cut_source ev = Some (cache_path a w v)))
     \<and> (cache_path a w v \<in> files st' \<longleftrightarrow> cache_path a w v \<in> files st \<or> downloadOk w i)"
proof (cases "cache_path a w v \<in> files st \<or> downloadOk w i")
  case True
  let ?st1 = "st\<lparr>events := events st @ (if cache_path a w v \<in> files st then []
                                   else [Download url (cache_path a w v)]),
           files := insert (cache_path a w v) (files st)\<rparr>"
  from assms(3) have c: "cut_segment w i (cache_path a w v) (field task ''startTime'')
      (field task ''endTime'') (segment_path a w i v) ?st1 = (r, st')"
    unfolding process_task_fetched[OF assms(1,2) True] .
  from cut_segment_effect[OF c] show ?thesis using True by auto
next
  case False
  then have f: "cache_path a w v \<notin> files st" "\<not> downloadOk w i" by simp_all
  show ?thesis
    using assms(3) f unfolding process_task_download_failed[OF assms(1,2) f] by auto
qed

lemma filter_download_cuts: "\<forall>ev\<in>set evs. is_cut ev \<and> P ev \<Longrightarrow> filter is_download evs = []"
  by (induction evs) (auto dest: is_cut_not_other)

lemma calculateDuration_not_after:
  assumes "timeToSeconds startTime = Inr s" "timeToSeconds endTime = Inr e" "js_le e s"
  shows "calculateDuration (Some (JStr startTime)) (Some (JStr endTime)) = Inl EndNotAfterStart"
  using assms by (simp add: calculateDuration_def)

text \<open>
  Claim C3, as amended. For a request whose end time, parsed, is less than or equal to
  its parsed start time, \<open>calculateDuration\<close> throws, no transcoder is started for the
  request and no clip is accumulated. The check belongs to the cut stage: when the
  request gets there it is skipped with that error, after the fetch stage, which has
  downloaded the source if it was not cached.
\<close>

theorem invalid_range_rejected:
  assumes "field task ''startTime'' = Some (JStr startTime)"
    and "field task ''endTime'' = Some (JStr endTime)"
    and "timeToSeconds startTime = Inr s" and "timeToSeconds endTime = Inr e" and "js_le e s"
    and "process_task a w i task st = (r, st')"
  shows "calculateDuration (field task ''startTime'') (field task ''endTime'') = Inl EndNotAfterStart
     \<and> filter is_cut (new_events st st') = []
     \<and> cutSegmentPaths st' = cutSegmentPaths st
     \<and> (\<forall>url v. field task ''url'' = Some (JStr url) \<and> getYouTubeId url = Inr (Some v)
            \<and> (cache_path a w v \<in> files st \<or> downloadOk w i)
          \<longrightarrow> r = None \<and> report st' = report st @ [Skipped (CutError EndNotAfterStart)]
              \<and> new_events st st' = (if cache_path a w v \<in> files st then []
                                     else [Download url (cache_path a w v)]))"
proof -
  have cd: "calculateDuration (field task ''startTime'') (field task ''endTime'') = Inl EndNotAfterStart"
    unfolding assms(1,2) using assms(3-5) by (rule calculateDuration_not_after)
  have reached: "r = None \<and> report st' = report st @ [Skipped (CutError EndNotAfterStart)]
       \<and> cutSegmentPaths st' = cutSegmentPaths st
       \<and> new_events st st' = (if cache_path a w v \<in> files st then []
                               else [Download url (cache_path a w v)])"
    if "field task ''url'' = Some (JStr url)" "getYouTubeId url = Inr (Some v)"
      "cache_path a w v \<in> files st \<or> downloadOk w i" for url v
    using assms(6) unfolding process_task_fetched[OF that] cut_segment_throw[OF cd] new_events_def
    by auto
  have "filter is_cut (new_events st st') = [] \<and> cutSegmentPaths st' = cutSegmentPaths st"
  proof (cases rule: process_task_cases[of a w i task st])
    case (crash e)
    then show ?thesis using assms(6) by (simp add: new_events_def)
  next
    case (no_id url)
    show ?thesis using assms(6) unfolding process_task_no_id[OF no_id]
      by (auto simp: new_events_def)
  next
    case (download_failed url v)
    show ?thesis using assms(6) unfolding process_task_download_failed[OF download_failed]
      by (auto simp: new_events_def)
  next
    case (fetched url v)
    from reached[OF this] show ?thesis by auto
  qed
  then show ?thesis using cd reached by blast
qed

theorem invalid_range_rejected_witness:
  "field (example_task ''https://youtu.be/AAAAAAAAAAA'' ''10'' ''5'') ''startTime'' = Some (JStr ''10'')
   \<and> field (example_task ''https://youtu.be/AAAAAAAAAAA'' ''10'' ''5'') ''endTime'' = Some (JStr ''5'')
   \<and> timeToSeconds ''10'' = Inr (Fin 10) \<and> timeToSeconds ''5'' = Inr (Fin 5) \<and> js_le (Fin 5) (Fin 10)
   \<and> filter is_cut (new_events empty_state
        (snd (process_task (example_args False) world_end_before_start 0
               (example_task ''https://youtu.be/AAAAAAAAAAA'' ''10'' ''5'') empty_state))) = []
   \<and> cutSegmentPaths (snd (process_task (example_args False) world_end_before_start 0
               (example_task ''https://youtu.be/AAAAAAAAAAA'' ''10'' ''5'') empty_state))
       = cutSegmentPaths empty_state"
proof -
  let ?t = "example_task ''https://youtu.be/AAAAAAAAAAA'' ''10'' ''5''"
  let ?r = "process_task (example_args False) world_end_before_start 0 ?t empty_state"
  have f: "field ?t ''startTime'' = Some (JStr ''10'')" "field ?t ''endTime'' = Some (JStr ''5'')"
    by (simp_all add: example_task_def)
  have t: "timeToSeconds ''10'' = Inr (Fin 10)" "timeToSeconds ''5'' = Inr (Fin 5)" by code_simp+
  have l: "js_le (Fin 5) (Fin 10)" by simp
  have r: "?r = (fst ?r, snd ?r)" by simp
  from invalid_range_rejected[OF f t l r] f t l show ?thesis by blast
qed

lemma run_end_before_start:
  "main (example_args False) world_end_before_start =
     (Exit 0,
      \<lparr>files = {''cache/AAAAAAAAAAA.mp4''},
       events = [Download ''https://youtu.be/AAAAAAAAAAA'' ''cache/AAAAAAAAAAA.mp4''],
       cutSegmentPaths = [],
       report = [Skipped (CutError EndNotAfterStart)]\<rparr>)"
  by code_simp

text \<open>
  Claim C3 as stated fails: the end is not after the start, and the download has been
  made for the request before it is rejected.
\<close>

theorem invalid_range_counterexample:
  "timeToSeconds ''10'' = Inr (Fin 10) \<and> timeToSeconds ''5'' = Inr (Fin 5) \<and> js_le (Fin 5) (Fin 10)
   \<and> events (snd (main (example_args False) world_end_before_start)) =
       [Download ''https://youtu.be/AAAAAAAAAAA'' ''cache/AAAAAAAAAAA.mp4'']
   \<and> report (snd (main (example_args False) world_end_before_start)) =
       [Skipped (CutError EndNotAfterStart)]"
proof -
  have "timeToSeconds ''10'' = Inr (Fin 10) \<and> timeToSeconds ''5'' = Inr (Fin 5)" by code_simp
  then show ?thesis by (simp add: run_end_before_start)
qed

lemma example_ids:
  "getYouTubeId ''https://youtu.be/AAAAAAAAAAA'' = Inr (Some ''AAAAAAAAAAA'')"
  "getYouTubeId ''https://www.youtube.com/watch?v=AAAAAAAAAAA'' = Inr (Some ''AAAAAAAAAAA'')"
  by code_simp+

text \<open>
  Claim C5, as amended. A request that reaches the cut stage (its identifier is known and
  its source is cached or has just been downloaded) never crashes the run and leaves the
  cached source in place. When the duration cannot be computed, the request is abandoned
  as a cutting error and no extraction is started. Otherwise the stream copy is started
  first; the re-encode is started exactly when the copy fails, on the same source and
  output, with the same start time and the same duration; a clip is accumulated when one
  of the two succeeds, and the request is abandoned with the tool's error exactly when
  both fail.
\<close>

theorem cut_fallback:
  assumes "field task ''url'' = Some (JStr url)" and "getYouTubeId url = Inr (Some v)"
    and "cache_path a w v \<in> files st \<or> downloadOk w i"
    and "process_task a w i task st = (r, st')"
  shows "r = None \<and> cache_path a w v \<in> files st'
     \<and> (case calculateDuration (field task ''startTime'') (field task ''endTime'') of
           Inl e \<Rightarrow>
             filter is_cut (new_events st st') = []
             \<and> report st' = report st @ [Skipped (CutError e)]
             \<and> cutSegmentPaths st' = cutSegmentPaths st
         | Inr d \<Rightarrow>
             filter is_cut (new_events st st') =
               CutCopy (cache_path a w v) (field task ''startTime'') d (segment_path a w i v)
               # (if copyOk w i then []
                  else [CutReencode (cache_path a w v) (field task ''startTime'') d
                          (segment_path a w i v)])
             \<and> report st' = report st @
                 [if copyOk w i \<or> reencodeOk w i then Produced (segment_path a w i v)
                  else Skipped (CutError ToolError)]
             \<and> cutSegmentPaths st' = cutSegmentPaths st @
                 (if copyOk w i \<or> reencodeOk w i then [segment_path a w i v] else []))"
proof (cases "calculateDuration (field task ''startTime'') (field task ''endTime'')")
  case (Inl e)
  show ?thesis
    using assms(4)
    unfolding process_task_fetched[OF assms(1-3)] cut_segment_throw[OF Inl] new_events_def Inl
    by auto
next
  case (Inr d)
  show ?thesis
    using assms(4)
    unfolding process_task_fetched[OF assms(1-3)] cut_segment_result[OF Inr] new_events_def Inr
    by auto
qed

theorem cut_fallback_witness:
  "field (example_task ''https://youtu.be/AAAAAAAAAAA'' ''00:00:18'' ''00:01:12'') ''url''
     = Some (JStr ''https://youtu.be/AAAAAAAAAAA'')
   \<and> getYouTubeId ''https://youtu.be/AAAAAAAAAAA'' = Inr (Some ''AAAAAAAAAAA'')
   \<and> downloadOk world_cuts_fail 0
   \<and> calculateDuration (Some (JStr ''00:00:18'')) (Some (JStr ''00:01:12'')) = Inr (Fin 54)
   \<and> filter is_cut (new_events empty_state
        (snd (process_task (example_args False) world_cuts_fail 0
               (example_task ''https://youtu.be/AAAAAAAAAAA'' ''00:00:18'' ''00:01:12'') empty_state)))
       = [CutCopy ''cache/AAAAAAAAAAA.mp4'' (Some (JStr ''00:00:18'')) (Fin 54)
            ''tmp/cut_segment_1_AAAAAAAAAAA.mp4'',
          CutReencode ''cache/AAAAAAAAAAA.mp4'' (Some (JStr ''00:00:18'')) (Fin 54)
            ''tmp/cut_segment_1_AAAAAAAAAAA.mp4'']
   \<and> report (snd (process_task (example_args False) world_cuts_fail 0
               (example_task ''https://youtu.be/AAAAAAAAAAA'' ''00:00:18'' ''00:01:12'') empty_state))
       = [Skipped (CutError ToolError)]
   \<and> ''cache/AAAAAAAAAAA.mp4'' \<in> files (snd (process_task (example_args False) world_cuts_fail 0
               (example_task ''https://youtu.be/AAAAAAAAAAA'' ''00:00:18'' ''00:01:12'') empty_state))"
proof -
  let ?t = "example_task ''https://youtu.be/AAAAAAAAAAA'' ''00:00:18'' ''00:01:12''"
  let ?r = "process_task (example_args False) world_cuts_fail 0 ?t empty_state"
  have f: "field ?t ''url'' = Some (JStr ''https://youtu.be/AAAAAAAAAAA'')"
    "field ?t ''startTime'' = Some (JStr ''00:00:18'')"
    "field ?t ''endTime'' = Some (JStr ''00:01:12'')"
    by (simp_all add: example_task_def)
  have d: "calculateDuration (Some (JStr ''00:00:18'')) (Some (JStr ''00:01:12'')) = Inr (Fin 54)"
    by code_simp
  have r: "?r = (fst ?r, snd ?r)" by simp
  have o: "downloadOk world_cuts_fail 0" "\<not> copyOk world_cuts_fail 0" "\<not> reencodeOk world_cuts_fail 0"
    by (simp_all add: world_cuts_fail_def example_world_def never_def always_def)
  have c: "cache_path (example_args False) world_cuts_fail ''AAAAAAAAAAA'' = ''cache/AAAAAAAAAAA.mp4''"
    by (simp add: cache_path_def example_args_def world_cuts_fail_def example_world_def)
  have s: "segment_path (example_args False) world_cuts_fail 0 ''AAAAAAAAAAA''
             = ''tmp/cut_segment_1_AAAAAAAAAAA.mp4''"
    by code_simp
  have avail: "cache_path (example_args False) world_cuts_fail ''AAAAAAAAAAA'' \<in> files empty_state
                 \<or> downloadOk world_cuts_fail 0"
    using o(1) by simp
  from cut_fallback[OF f(1) example_ids(1) avail r] f d o c s example_ids(1) show ?thesis
    by (simp add: empty_state_def)
qed

lemma run_bad_timecode:
  "main (example_args False) world_bad_timecode =
     (Exit 0,
      \<lparr>files = {''cache/AAAAAAAAAAA.mp4''},
       events = [Download ''https://youtu.be/AAAAAAAAAAA'' ''cache/AAAAAAAAAAA.mp4''],
       cutSegmentPaths = [],
       report = [Skipped (CutError (InvalidTimeFormat ''1:2:3:4''))]\<rparr>)"
  by code_simp

text \<open>
  Claim C5 as stated fails: the request is abandoned as a cutting error although neither
  extraction failed, because none was started.
\<close>

theorem cut_abandoned_without_attempt_counterexample:
  "filter is_cut (events (snd (main (example_args False) world_bad_timecode))) = []
   \<and> report (snd (main (example_args False) world_bad_timecode)) =
       [Skipped (CutError (InvalidTimeFormat ''1:2:3:4''))]"
  by (simp add: run_bad_timecode)

lemma clip_of_request_mono:
  "clip_of_request a w i task evs p \<Longrightarrow> set evs \<subseteq> set evs' \<Longrightarrow> clip_of_request a w i task evs' p"
  unfolding clip_of_request_def by blast

text \<open>A clip in the report of a request is the clip of that request.\<close>

lemma process_task_produced:
  assumes "process_task a w i task st = (r, st')" and "report st' = report st @ [Produced p]"
  shows "clip_of_request a w i task (new_events st st') p"
proof (cases rule: process_task_cases[of a w i task st])
  case (crash e)
  then show ?thesis using assms by auto
next
  case (no_id url)
  show ?thesis using assms unfolding process_task_no_id[OF no_id] by auto
next
  case (download_failed url v)
  show ?thesis using assms unfolding process_task_download_failed[OF download_failed] by auto
next
  case (fetched url v)
  show ?thesis
  proof (cases "calculateDuration (field task ''startTime'') (field task ''endTime'')")
    case (Inl e)
    show ?thesis
      using assms unfolding process_task_fetched[OF fetched] cut_segment_throw[OF Inl] by auto
  next
    case (Inr d)
    have "p = segment_path a w i v
        \<and> CutCopy (cache_path a w v) (field task ''startTime'') d p \<in> set (new_events st st')"
      using assms
      unfolding process_task_fetched[OF fetched] cut_segment_result[OF Inr] new_events_def
      by (auto split: if_splits)
    then show ?thesis unfolding clip_of_request_def using fetched(1,2) Inr by blast
  qed
qed

text \<open>
  Claim C4, as amended. Two consecutive requests resolve to the same identifier. If its
  file is already cached, neither request downloads. If it is not and the download of
  the first request succeeds, that is the only download, and the second request uses
  the cached file without any check. If the download of the first request fails, the
  second request downloads again. Either way neither request crashes, and every cut of
  the two reads the one cache path of the identifier.
\<close>

theorem fetch_once_cached:
  assumes "field t1 ''url'' = Some (JStr u1)" and "field t2 ''url'' = Some (JStr u2)"
    and "getYouTubeId u1 = Inr (Some v)" and "getYouTubeId u2 = Inr (Some v)"
    and "process_tasks a w i [t1, t2] st = (r, st')"
  shows "r = None
     \<and> filter is_download (new_events st st') =
         (if cache_path a w v \<in> files st then []
          else if downloadOk w i then [Download u1 (cache_path a w v)]
          else [Download u1 (cache_path a w v), Download u2 (cache_path a w v)])
     \<and> (\<forall>ev\<in>set (new_events st st'). is_cut ev \<longrightarrow> cut_source ev = Some (cache_path a w v))"
proof -
  let ?p = "cache_path a w v"
  obtain r1 st1 where s1: "process_task a w i t1 st = (r1, st1)"
    by (cases "process_task a w i t1 st")
  from process_task_known_id[OF assms(1,3) s1] obtain evs1 where
    e1: "r1 = None" "events st1 = events st @ (if ?p \<in> files st then [] else [Download u1 ?p]) @ evs1"
      "\<forall>ev\<in>set evs1. is_cut ev \<and> cut_source ev = Some ?p"
      "?p \<in> files st1 \<longleftrightarrow> ?p \<in> files st \<or> downloadOk w i"
    by blast
  obtain r2 st2 where s2: "process_task a w (Suc i) t2 st1 = (r2, st2)"
    by (cases "process_task a w (Suc i) t2 st1")
  from process_task_known_id[OF assms(2,4) s2] obtain evs2 where
    e2: "r2 = None" "events st2 = events st1 @ (if ?p \<in> files st1 then [] else [Download u2 ?p]) @ evs2"
      "\<forall>ev\<in>set evs2. is_cut ev \<and> cut_source ev = Some ?p"
    by blast
  have res: "r = None" "st' = st2" using assms(5) s1 s2 e1(1) e2(1) by simp_all
  have new: "new_events st st' =
      (if ?p \<in> files st then [] else [Download u1 ?p]) @ evs1
      @ (if ?p \<in> files st1 then [] else [Download u2 ?p]) @ evs2"
    unfolding new_events_def res(2) e2(2) e1(2) by simp
  have f1: "filter is_download evs1 = []" and f2: "filter is_download evs2 = []"
    using e1(3) e2(3) by (auto intro: filter_download_cuts)
  have "filter is_download (new_events st st') =
         (if ?p \<in> files st then []
          else if downloadOk w i then [Download u1 ?p]
          else [Download u1 ?p, Download u2 ?p])"
    unfolding new using f1 f2 e1(4) by simp
  moreover have "\<forall>ev\<in>set (new_events st st'). is_cut ev \<longrightarrow> cut_source ev = Some ?p"
    unfolding new using e1(3) e2(3) by auto
  ultimately show ?thesis using res(1) by blast
qed

theorem fetch_once_cached_witness:
  "field (example_task ''https://youtu.be/AAAAAAAAAAA'' ''0'' ''5'') ''url''
      = Some (JStr ''https://youtu.be/AAAAAAAAAAA'')
   \<and> field (example_task ''https://www.youtube.com/watch?v=AAAAAAAAAAA'' ''7'' ''9'') ''url''
      = Some (JStr ''https://www.youtube.com/watch?v=AAAAAAAAAAA'')
   \<and> getYouTubeId ''https://youtu.be/AAAAAAAAAAA'' = Inr (Some ''AAAAAAAAAAA'')
   \<and> getYouTubeId ''https://www.youtube.com/watch?v=AAAAAAAAAAA'' = Inr (Some ''AAAAAAAAAAA'')
   \<and> filter is_download (new_events empty_state
        (snd (process_tasks (example_args False) world_skip_middle 0
           [example_task ''https://youtu.be/AAAAAAAAAAA'' ''0'' ''5'',
            example_task ''https://www.youtube.com/watch?v=AAAAAAAAAAA'' ''7'' ''9''] empty_state)))
       = [Download ''https://youtu.be/AAAAAAAAAAA'' ''cache/AAAAAAAAAAA.mp4'']"
proof -
  let ?t1 = "example_task ''https://youtu.be/AAAAAAAAAAA'' ''0'' ''5''"
  let ?t2 = "example_task ''https://www.youtube.com/watch?v=AAAAAAAAAAA'' ''7'' ''9''"
  let ?r = "process_tasks (example_args False) world_skip_middle 0 [?t1, ?t2] empty_state"
  have f: "field ?t1 ''url'' = Some (JStr ''https://youtu.be/AAAAAAAAAAA'')"
    "field ?t2 ''url'' = Some (JStr ''https://www.youtube.com/watch?v=AAAAAAAAAAA'')"
    by (simp_all add: example_task_def)
  have r: "?r = (fst ?r, snd ?r)" by simp
  have c: "cache_path (example_args False) world_skip_middle ''AAAAAAAAAAA'' = ''cache/AAAAAAAAAAA.mp4''"
    by (simp add: cache_path_def example_args_def world_skip_middle_def example_world_def)
  have d: "downloadOk world_skip_middle 0"
    by (simp add: world_skip_middle_def example_world_def always_def)
  from fetch_once_cached[OF f example_ids r] f example_ids c d show ?thesis
    by (simp add: empty_state_def)
qed

lemma run_download_fails:
  "main (example_args False) world_download_fails =
     (Exit 0,
      \<lparr>files = {},
       events = [Download ''https://youtu.be/AAAAAAAAAAA'' ''cache/AAAAAAAAAAA.mp4'',
                 Download ''https://www.youtube.com/watch?v=AAAAAAAAAAA'' ''cache/AAAAAAAAAAA.mp4''],
       cutSegmentPaths = [],
       report = [Skipped DownloadError, Skipped DownloadError]\<rparr>)"
  by code_simp

text \<open>
  Claim C4 as stated fails: two consecutive requests for one identifier, the download
  fails, and the run makes two retrievals.
\<close>

theorem fetch_once_counterexample:
  "getYouTubeId ''https://youtu.be/AAAAAAAAAAA'' = Inr (Some ''AAAAAAAAAAA'')
   \<and> getYouTubeId ''https://www.youtube.com/watch?v=AAAAAAAAAAA'' = Inr (Some ''AAAAAAAAAAA'')
   \<and> filter is_download (events (snd (main (example_args False) world_download_fails))) =
       [Download ''https://youtu.be/AAAAAAAAAAA'' ''cache/AAAAAAAAAAA.mp4'',
        Download ''https://www.youtube.com/watch?v=AAAAAAAAAAA'' ''cache/AAAAAAAAAAA.mp4'']"
  by (simp add: example_ids run_download_fails)

section \<open>The loop and the run\<close>

lemma clips_append: "clips (xs @ ys) = clips xs @ clips ys"
  by (induction xs rule: clips.induct) simp_all

lemma process_tasks_effect:
  assumes "process_tasks a w i tasks st = (r, st')"
  shows "files st \<subseteq> files st'
     \<and> (\<exists>evs. events st' = events st @ evs \<and> (\<forall>ev\<in>set evs. \<not> is_merge ev))
     \<and> (\<exists>xs. report st' = report st @ xs \<and> cutSegmentPaths st' = cutSegmentPaths st @ clips xs
              \<and> (r = None \<longrightarrow> length xs = length tasks
                    \<and> (\<forall>k p. k < length xs \<and> xs ! k = Produced p
                          \<longrightarrow> (\<exists>v. p = segment_path a w (i + k) v))))"
  using assms
proof (induction tasks arbitrary: i st)
  case Nil
  then show ?case by simp
next
  case (Cons task rest)
  obtain r1 st1 where step: "process_task a w i task st = (r1, st1)" by (cases "process_task a w i task st")
  from process_task_effect[OF step] obtain evs xs where
    s1: "files st \<subseteq> files st1" "events st1 = events st @ evs" "\<forall>ev\<in>set evs. \<not> is_merge ev"
      "report st1 = report st @ xs" "cutSegmentPaths st1 = cutSegmentPaths st @ clips xs"
      "r1 = None \<longrightarrow> (\<exists>x. xs = [x] \<and> (\<forall>p. x = Produced p \<longrightarrow> (\<exists>v. p = segment_path a w i v)))"
    by blast
  show ?case
  proof (cases r1)
    case (Some e)
    then have "r = Some e" "st' = st1" using Cons.prems step by simp_all
    then show ?thesis using s1 by auto
  next
    case None
    then have rest: "process_tasks a w (Suc i) rest st1 = (r, st')" using Cons.prems step by simp
    from None s1(6) obtain x where x: "xs = [x]"
      "\<forall>p. x = Produced p \<longrightarrow> (\<exists>v. p = segment_path a w i v)" by blast
    from Cons.IH[OF rest] obtain evs2 ys where
      s2: "files st1 \<subseteq> files st'" "events st' = events st1 @ evs2" "\<forall>ev\<in>set evs2. \<not> is_merge ev"
        "report st' = report st1 @ ys" "cutSegmentPaths st' = cutSegmentPaths st1 @ clips ys"
        "r = None \<longrightarrow> length ys = length rest
           \<and> (\<forall>k p. k < length ys \<and> ys ! k = Produced p \<longrightarrow> (\<exists>v. p = segment_path a w (Suc i + k) v))"
      by blast
    have "files st \<subseteq> files st'" using s1(1) s2(1) by blast
    moreover have "events st' = events st @ (evs @ evs2)" "\<forall>ev\<in>set (evs @ evs2). \<not> is_merge ev"
      using s1(2,3) s2(2,3) by auto
    moreover have "report st' = report st @ (x # ys)"
      "cutSegmentPaths st' = cutSegmentPaths st @ clips (x # ys)"
      using s1(4,5) s2(4,5) x(1) clips_append[of "[x]" ys] by simp_all
    moreover have "r = None \<longrightarrow> length (x # ys) = length (task # rest)
        \<and> (\<forall>k p. k < length (x # ys) \<and> (x # ys) ! k = Produced p
               \<longrightarrow> (\<exists>v. p = segment_path a w (i + k) v))"
    proof
      assume rn: "r = None"
      have "\<exists>v. p = segment_path a w (i + k) v" if "k < length (x # ys)" "(x # ys) ! k = Produced p" for k p
      proof (cases k)
        case 0
        then show ?thesis using that x(2) by simp
      next
        case (Suc k')
        then show ?thesis using that s2(6) rn by auto
      qed
      then show "length (x # ys) = length (task # rest)
        \<and> (\<forall>k p. k < length (x # ys) \<and> (x # ys) ! k = Produced p
               \<longrightarrow> (\<exists>v. p = segment_path a w (i + k) v))"
        using s2(6) rn by simp
    qed
    ultimately show ?thesis by blast
  qed
qed

text \<open>
  Lifted through the loop: the \<open>k\<close>-th new report entry is that of the \<open>k\<close>-th task,
  processed at index \<open>i + k\<close>.
\<close>

lemma process_tasks_produced:
  assumes "process_tasks a w i tasks st = (None, st')"
  shows "\<exists>xs. report st' = report st @ xs \<and> length xs = length tasks
     \<and> (\<forall>k p. k < length xs \<and> xs ! k = Produced p
            \<longrightarrow> clip_of_request a w (i + k) (tasks ! k) (events st') p)"
  using assms
proof (induction tasks arbitrary: i st)
  case Nil
  then show ?case by simp
next
  case (Cons task rest)
  obtain r1 st1 where step: "process_task a w i task st = (r1, st1)"
    by (cases "process_task a w i task st")
  have r1: "r1 = None" using Cons.prems step by (cases r1) simp_all
  then have rest: "process_tasks a w (Suc i) rest st1 = (None, st')" using Cons.prems step by simp
  from process_task_effect[OF step] r1 obtain evs x where
    s1: "events st1 = events st @ evs" "report st1 = report st @ [x]" by blast
  from process_tasks_effect[OF rest] obtain evs2 where
    s2: "events st' = events st1 @ evs2" by blast
  from Cons.IH[OF rest] obtain ys where
    ih: "report st' = report st1 @ ys" "length ys = length rest"
      "\<forall>k p. k < length ys \<and> ys ! k = Produced p
         \<longrightarrow> clip_of_request a w (Suc i + k) (rest ! k) (events st') p"
    by blast
  have sub: "set (new_events st st1) \<subseteq> set (events st')"
    unfolding new_events_def s2 s1(1) by auto
  have "clip_of_request a w (i + k) ((task # rest) ! k) (events st') p"
    if "k < length (x # ys)" "(x # ys) ! k = Produced p" for k p
  proof (cases k)
    case 0
    then have "report st1 = report st @ [Produced p]" using that s1(2) by simp
    from process_task_produced[OF step this] sub show ?thesis
      using 0 by (auto intro: clip_of_request_mono)
  next
    case (Suc k')
    then show ?thesis using that ih(3) by auto
  qed
  moreover have "report st' = report st @ (x # ys)" using s1(2) ih(1) by simp
  moreover have "length (x # ys) = length (task # rest)" using ih(2) by simp
  ultimately show ?case by blast
qed

lemma Produced_in_clips: "Produced p \<in> set xs \<Longrightarrow> p \<in> set (clips xs)"
  by (induction xs rule: clips.induct) auto

lemma clips_precede:
  assumes "i < j" "j < length xs" "xs ! i = Produced p" "xs ! j = Produced q"
  shows "\<exists>k l. k < l \<and> l < length (clips xs) \<and> clips xs ! k = p \<and> clips xs ! l = q"
proof -
  let ?pre = "take j xs"
  have xs: "xs = ?pre @ Produced q # drop (Suc j) xs"
    using assms(2,4) id_take_nth_drop by fastforce
  have "?pre ! i = Produced p" using assms(1,3) by simp
  moreover have "i < length ?pre" using assms(1,2) by simp
  ultimately have "Produced p \<in> set ?pre" by (metis nth_mem)
  then have "p \<in> set (clips ?pre)" by (rule Produced_in_clips)
  then obtain k where k: "k < length (clips ?pre)" "clips ?pre ! k = p"
    by (auto simp: in_set_conv_nth)
  have c: "clips xs = clips ?pre @ q # clips (drop (Suc j) xs)"
    by (subst xs) (simp add: clips_append)
  have "clips xs ! k = p" using k by (simp add: c nth_append)
  moreover have "clips xs ! length (clips ?pre) = q" by (simp add: c)
  moreover have "length (clips ?pre) < length (clips xs)" by (simp add: c)
  ultimately show ?thesis using k(1) by blast
qed

lemma read_input_Inr: "read_input w = Inr tasks \<Longrightarrow> inputFile w = Some (JArr tasks)"
  by (auto simp: read_input_def split: option.splits json.splits sum.splits bool.splits)

lemma main_reaches_loop:
  assumes "ffmpegFound w" "ytdlpFound w" "dirsOk w" "read_input w = Inr tasks"
    "process_tasks a w 0 tasks (init_state a w) = (r, st2)"
  shows "main a w =
     (case r of
        Some e \<Rightarrow> (Crashed e, st2)
      | None \<Rightarrow>
          if cutSegmentPaths st2 = [] then
            (if \<not> verbose a then
               (if removeOk w
                then (Exit 0, st2\<lparr>files := remove_inside w (tempDir a) (files st2)\<rparr>)
                else (Crashed ToolError, st2))
             else (Exit 0, st2))
          else (Finished, cleanup a w (join_segments a w st2)))"
  using assms by (simp add: main_def init_state_def Let_def split: option.splits)

lemma main_early_exit:
  assumes "\<not> (ffmpegFound w \<and> ytdlpFound w \<and> dirsOk w) \<or> (\<exists>e. read_input w = Inl e)"
  shows "fst (main a w) = Exit 1 \<and> events (snd (main a w)) = []
     \<and> report (snd (main a w)) = [] \<and> cutSegmentPaths (snd (main a w)) = []"
  using assms by (auto simp: main_def Let_def)

lemma join_segments_fields:
  "events (join_segments a w st) = events st @ [Merge (cutSegmentPaths st) (output_path a)]"
  "report (join_segments a w st) = report st"
  "cutSegmentPaths (join_segments a w st) = cutSegmentPaths st"
  "files (join_segments a w st) =
     (case mergeResult w of
        MergeOk \<Rightarrow> insert (output_path a) (files st)
      | MergeFailed partial \<Rightarrow> if partial then insert (output_path a) (files st) else files st)"
  by (simp_all add: join_segments_def Let_def split: merge_result.splits)

lemma cleanup_fields:
  "events (cleanup a w st) = events st"
  "report (cleanup a w st) = report st"
  "cutSegmentPaths (cleanup a w st) = cutSegmentPaths st"
  "files (cleanup a w st) =
     (if \<not> verbose a \<and> removeOk w then remove_inside w (tempDir a) (files st) else files st)"
  by (simp_all add: cleanup_def)

lemma main_merge_inv:
  assumes "main a w = (out, st')" and "Merge ps dest \<in> set (events st')"
  shows "\<exists>tasks st2. read_input w = Inr tasks
           \<and> process_tasks a w 0 tasks (init_state a w) = (None, st2)
           \<and> cutSegmentPaths st2 \<noteq> [] \<and> out = Finished
           \<and> st' = cleanup a w (join_segments a w st2)
           \<and> ps = cutSegmentPaths st2 \<and> dest = output_path a"
proof (cases "\<not> (ffmpegFound w \<and> ytdlpFound w \<and> dirsOk w) \<or> (\<exists>e. read_input w = Inl e)")
  case True
  from main_early_exit[OF True, of a] assms show ?thesis by simp
next
  case False
  then obtain tasks where ok: "ffmpegFound w" "ytdlpFound w" "dirsOk w" and
    ri: "read_input w = Inr tasks"
    by (cases "read_input w") auto
  obtain r st2 where loop: "process_tasks a w 0 tasks (init_state a w) = (r, st2)"
    by (cases "process_tasks a w 0 tasks (init_state a w)")
  from process_tasks_effect[OF loop] have nm: "\<forall>ev\<in>set (events st2). \<not> is_merge ev"
    by (auto simp: init_state_def)
  note m = main_reaches_loop[OF ok ri loop]
  show ?thesis
  proof (cases r)
    case (Some e)
    then have "st' = st2" using m assms(1) by simp
    then show ?thesis using nm assms(2) by auto
  next
    case None
    show ?thesis
    proof (cases "cutSegmentPaths st2 = []")
      case True
      then have "events st' = events st2" using m assms(1) None by (auto split: if_splits)
      then show ?thesis using nm assms(2) by auto
    next
      case False
      then have o: "out = Finished" "st' = cleanup a w (join_segments a w st2)"
        using m assms(1) None by simp_all
      then have "events st' = events st2 @ [Merge (cutSegmentPaths st2) (output_path a)]"
        by (simp add: cleanup_fields join_segments_fields)
      then have "Merge ps dest = Merge (cutSegmentPaths st2) (output_path a)"
        using nm assms(2) by auto
      then show ?thesis using ri loop None False o by simp
    qed
  qed
qed

lemma run_skip_middle:
  "main (example_args False) world_skip_middle =
     (Finished,
      \<lparr>files = {''out.mp4'', ''cache/AAAAAAAAAAA.mp4'', ''cache/CCCCCCCCCCC.mp4''},
       events =
         [Download ''https://youtu.be/AAAAAAAAAAA'' ''cache/AAAAAAAAAAA.mp4'',
          CutCopy ''cache/AAAAAAAAAAA.mp4'' (Some (JStr ''00:00:10'')) (Fin 10)
            ''tmp/cut_segment_1_AAAAAAAAAAA.mp4'',
          Download ''https://www.youtube.com/watch?v=CCCCCCCCCCC'' ''cache/CCCCCCCCCCC.mp4'',
          CutCopy ''cache/CCCCCCCCCCC.mp4'' (Some (JStr ''1:00'')) (Fin 30)
            ''tmp/cut_segment_3_CCCCCCCCCCC.mp4'',
          Merge [''tmp/cut_segment_1_AAAAAAAAAAA.mp4'', ''tmp/cut_segment_3_CCCCCCCCCCC.mp4'']
            ''out.mp4''],
       cutSegmentPaths =
         [''tmp/cut_segment_1_AAAAAAAAAAA.mp4'', ''tmp/cut_segment_3_CCCCCCCCCCC.mp4''],
       report =
         [Produced ''tmp/cut_segment_1_AAAAAAAAAAA.mp4'', Skipped InvalidReference,
          Produced ''tmp/cut_segment_3_CCCCCCCCCCC.mp4'']\<rparr>)"
  by code_simp

text \<open>
  Claim C1. Whenever a run reaches the concatenation, the list of clips given to it is
  the list of the clips of the requests that produced one, in request order. The report
  has one entry per task of the input, in the order of the input; an entry \<open>Produced p\<close>
  at position \<open>i\<close> is the clip of the task at position \<open>i\<close> of the input: cut for that
  task's own identifier, start time and duration, into the segment file numbered
  \<open>i + 1\<close>; and the merged list is the report with the skipped requests left out. So of
  two requests that both produce a clip, the earlier one's clip comes first, however many
  requests between them were skipped.
\<close>

theorem merge_order:
  assumes "main a w = (out, st')" and "Merge ps dest \<in> set (events st')"
    and "inputFile w = Some (JArr tasks)"
  shows "ps = clips (report st')
     \<and> length (report st') = length tasks
     \<and> (\<forall>i p. i < length tasks \<and> report st' ! i = Produced p
            \<longrightarrow> clip_of_request a w i (tasks ! i) (events st') p)
     \<and> (\<forall>i j p q. i < j \<and> j < length tasks \<and> report st' ! i = Produced p
              \<and> report st' ! j = Produced q
            \<longrightarrow> (\<exists>k l. k < l \<and> l < length ps \<and> ps ! k = p \<and> ps ! l = q))"
proof -
  from main_merge_inv[OF assms(1,2)] obtain tasks' st2 where
    m: "read_input w = Inr tasks'" "process_tasks a w 0 tasks' (init_state a w) = (None, st2)"
      "st' = cleanup a w (join_segments a w st2)" "ps = cutSegmentPaths st2"
    by blast
  have tasks: "tasks' = tasks" using read_input_Inr[OF m(1)] assms(3) by simp
  have rep: "report st' = report st2" using m(3) by (simp add: cleanup_fields join_segments_fields)
  have ev: "set (events st2) \<subseteq> set (events st')"
    using m(3) by (auto simp: cleanup_fields join_segments_fields)
  from process_tasks_effect[OF m(2)] have
    inv: "cutSegmentPaths st2 = clips (report st2)"
    by (auto simp: init_state_def)
  from process_tasks_produced[OF m(2)] have
    prod: "length (report st2) = length tasks"
      "\<forall>k p. k < length (report st2) \<and> report st2 ! k = Produced p
          \<longrightarrow> clip_of_request a w k (tasks ! k) (events st2) p"
    unfolding tasks by (auto simp: init_state_def)
  have ps: "ps = clips (report st')" using m(4) inv rep by simp
  moreover have len: "length (report st') = length tasks" using prod(1) rep by simp
  moreover have "\<forall>i p. i < length tasks \<and> report st' ! i = Produced p
            \<longrightarrow> clip_of_request a w i (tasks ! i) (events st') p"
    using prod rep ev by (auto intro: clip_of_request_mono)
  moreover have "\<forall>i j p q. i < j \<and> j < length tasks \<and> report st' ! i = Produced p
              \<and> report st' ! j = Produced q
            \<longrightarrow> (\<exists>k l. k < l \<and> l < length ps \<and> ps ! k = p \<and> ps ! l = q)"
    unfolding ps len[symmetric] using clips_precede by blast
  ultimately show ?thesis by blast
qed

theorem merge_order_witness:
  "inputFile world_skip_middle =
     Some (JArr [example_task ''https://youtu.be/AAAAAAAAAAA'' ''00:00:10'' ''00:00:20'',
                 example_task ''https://example.com/clip'' ''0'' ''5'',
                 example_task ''https://www.youtube.com/watch?v=CCCCCCCCCCC'' ''1:00'' ''1:30''])
   \<and> Merge [''tmp/cut_segment_1_AAAAAAAAAAA.mp4'', ''tmp/cut_segment_3_CCCCCCCCCCC.mp4''] ''out.mp4''
     \<in> set (events (snd (main (example_args False) world_skip_middle)))
   \<and> report (snd (main (example_args False) world_skip_middle)) =
       [Produced ''tmp/cut_segment_1_AAAAAAAAAAA.mp4'', Skipped InvalidReference,
        Produced ''tmp/cut_segment_3_CCCCCCCCCCC.mp4'']
   \<and> [''tmp/cut_segment_1_AAAAAAAAAAA.mp4'', ''tmp/cut_segment_3_CCCCCCCCCCC.mp4'']
       = clips (report (snd (main (example_args False) world_skip_middle)))
   \<and> clip_of_request (example_args False) world_skip_middle 2
        (example_task ''https://www.youtube.com/watch?v=CCCCCCCCCCC'' ''1:00'' ''1:30'')
        (events (snd (main (example_args False) world_skip_middle)))
        ''tmp/cut_segment_3_CCCCCCCCCCC.mp4''"
proof -
  let ?ps = "[''tmp/cut_segment_1_AAAAAAAAAAA.mp4'', ''tmp/cut_segment_3_CCCCCCCCCCC.mp4'']"
  let ?run = "main (example_args False) world_skip_middle"
  let ?tasks = "[example_task ''https://youtu.be/AAAAAAAAAAA'' ''00:00:10'' ''00:00:20'',
                 example_task ''https://example.com/clip'' ''0'' ''5'',
                 example_task ''https://www.youtube.com/watch?v=CCCCCCCCCCC'' ''1:00'' ''1:30'']"
  have run: "?run = (fst ?run, snd ?run)" by simp
  have ev: "Merge ?ps ''out.mp4'' \<in> set (events (snd ?run))"
    by (simp add: run_skip_middle)
  have rep: "report (snd ?run) = [Produced ''tmp/cut_segment_1_AAAAAAAAAAA.mp4'',
      Skipped InvalidReference, Produced ''tmp/cut_segment_3_CCCCCCCCCCC.mp4'']"
    by (simp add: run_skip_middle)
  have inp: "inputFile world_skip_middle = Some (JArr ?tasks)"
    by (simp add: world_skip_middle_def example_world_def)
  have all: "\<forall>i p. i < length ?tasks \<and> report (snd ?run) ! i = Produced p
            \<longrightarrow> clip_of_request (example_args False) world_skip_middle i (?tasks ! i)
                  (events (snd ?run)) p"
    using merge_order[OF run ev inp] by blast
  have "clip_of_request (example_args False) world_skip_middle 2 (?tasks ! 2)
          (events (snd ?run)) ''tmp/cut_segment_3_CCCCCCCCCCC.mp4''"
    using all[rule_format, of 2 "''tmp/cut_segment_3_CCCCCCCCCCC.mp4''"] rep by simp
  then have "clip_of_request (example_args False) world_skip_middle 2
        (example_task ''https://www.youtube.com/watch?v=CCCCCCCCCCC'' ''1:00'' ''1:30'')
        (events (snd ?run)) ''tmp/cut_segment_3_CCCCCCCCCCC.mp4''"
    by simp
  with merge_order[OF run ev inp] ev rep inp show ?thesis by blast
qed

lemma run_merge_fails:
  "main (example_args False) world_merge_fails =
     (Finished,
      \<lparr>files = {''out.mp4'', ''cache/AAAAAAAAAAA.mp4''},
       events =
         [Download ''https://youtu.be/AAAAAAAAAAA'' ''cache/AAAAAAAAAAA.mp4'',
          CutCopy ''cache/AAAAAAAAAAA.mp4'' (Some (JStr ''0'')) (Fin 5)
            ''tmp/cut_segment_1_AAAAAAAAAAA.mp4'',
          Merge [''tmp/cut_segment_1_AAAAAAAAAAA.mp4''] ''out.mp4''],
       cutSegmentPaths = [''tmp/cut_segment_1_AAAAAAAAAAA.mp4''],
       report = [Produced ''tmp/cut_segment_1_AAAAAAAAAAA.mp4'']\<rparr>)"
  by code_simp

text \<open>
  Claim C6, as amended. When the concatenation fails, the failure is only logged: the
  run goes on to the cleanup of step 6 and \<open>main\<close> returns normally. The final state is
  the state after the loop with the concatenation recorded, the file the failed
  concatenation may have left at the output path added, and then the scratch directory
  removed unless the run is verbose or the removal fails. Nothing else removes the
  output file: if one was left, it is still there at the end of the run, unless the
  output path lies inside the scratch directory that the cleanup deletes.
\<close>

theorem merge_failure_swallowed:
  assumes "main a w = (out, st')" and "Merge ps dest \<in> set (events st')"
    and "mergeResult w = MergeFailed partial"
  shows "out = Finished \<and> dest = output_path a
     \<and> (\<exists>tasks st2. read_input w = Inr tasks
            \<and> process_tasks a w 0 tasks (init_state a w) = (None, st2)
            \<and> events st' = events st2 @ [Merge ps (output_path a)]
            \<and> report st' = report st2 \<and> cutSegmentPaths st' = cutSegmentPaths st2
            \<and> files st' =
                (if \<not> verbose a \<and> removeOk w
                 then remove_inside w (tempDir a)
                        (if partial then insert (output_path a) (files st2) else files st2)
                 else (if partial then insert (output_path a) (files st2) else files st2)))
     \<and> (\<not> verbose a \<and> removeOk w \<longrightarrow> (\<forall>p\<in>files st'. \<not> path_inside w (tempDir a) p))
     \<and> (partial \<and> \<not> (\<not> verbose a \<and> removeOk w \<and> path_inside w (tempDir a) (output_path a))
          \<longrightarrow> output_path a \<in> files st')"
proof -
  from main_merge_inv[OF assms(1,2)] obtain tasks st2 where
    m: "read_input w = Inr tasks" "process_tasks a w 0 tasks (init_state a w) = (None, st2)"
      "out = Finished" "st' = cleanup a w (join_segments a w st2)"
      "ps = cutSegmentPaths st2" "dest = output_path a"
    by blast
  let ?F = "if partial then insert (output_path a) (files st2) else files st2"
  have fj: "files (join_segments a w st2) = ?F"
    by (simp add: join_segments_fields assms(3))
  have files: "files st' = (if \<not> verbose a \<and> removeOk w then remove_inside w (tempDir a) ?F else ?F)"
    unfolding m(4) cleanup_fields fj ..
  have ev: "events st' = events st2 @ [Merge ps (output_path a)]"
    unfolding m(4,5) by (simp add: cleanup_fields join_segments_fields)
  have rest: "report st' = report st2" "cutSegmentPaths st' = cutSegmentPaths st2"
    unfolding m(4) by (simp_all add: cleanup_fields join_segments_fields)
  have purge: "\<not> verbose a \<and> removeOk w \<longrightarrow> (\<forall>p\<in>files st'. \<not> path_inside w (tempDir a) p)"
    unfolding files by (simp add: remove_inside_def)
  have kept: "partial \<and> \<not> (\<not> verbose a \<and> removeOk w \<and> path_inside w (tempDir a) (output_path a))
          \<longrightarrow> output_path a \<in> files st'"
    unfolding files by (auto simp: remove_inside_def)
  show ?thesis using m(1,2,3,6) files ev rest purge kept by blast
qed

theorem merge_failure_swallowed_witness:
  "Merge [''tmp/cut_segment_1_AAAAAAAAAAA.mp4''] ''out.mp4''
        \<in> set (events (snd (main (example_args False) world_merge_fails)))
   \<and> mergeResult world_merge_fails = MergeFailed True
   \<and> \<not> verbose (example_args False) \<and> removeOk world_merge_fails
   \<and> \<not> path_inside world_merge_fails (tempDir (example_args False)) (output_path (example_args False))
   \<and> path_inside world_merge_fails (tempDir (example_args False)) ''tmp/cut_segment_1_AAAAAAAAAAA.mp4''
   \<and> fst (main (example_args False) world_merge_fails) = Finished
   \<and> ''tmp/cut_segment_1_AAAAAAAAAAA.mp4'' \<notin> files (snd (main (example_args False) world_merge_fails))
   \<and> output_path (example_args False) \<in> files (snd (main (example_args False) world_merge_fails))"
proof -
  let ?run = "main (example_args False) world_merge_fails"
  have run: "?run = (fst ?run, snd ?run)" by simp
  have ev: "Merge [''tmp/cut_segment_1_AAAAAAAAAAA.mp4''] ''out.mp4'' \<in> set (events (snd ?run))"
    by (simp add: run_merge_fails)
  have mr: "mergeResult world_merge_fails = MergeFailed True"
    by (simp add: world_merge_fails_def example_world_def)
  have v: "\<not> verbose (example_args False)" "removeOk world_merge_fails"
    by (simp_all add: world_merge_fails_def example_world_def example_args_def)
  have ni: "\<not> path_inside world_merge_fails (tempDir (example_args False)) (output_path (example_args False))"
    by (simp add: world_merge_fails_def example_world_def example_args_def)
  have ins: "path_inside world_merge_fails (tempDir (example_args False)) ''tmp/cut_segment_1_AAAAAAAAAAA.mp4''"
    by (simp add: world_merge_fails_def example_world_def example_args_def)
  from merge_failure_swallowed[OF run ev mr] ev mr v ni ins show ?thesis by blast
qed

text \<open>
  Claim C6 as stated fails: the concatenation fails and leaves a partial file at
  \<open>out.mp4\<close>; the run ends normally and the file is still there.
\<close>

theorem merge_failure_counterexample:
  "mergeResult world_merge_fails = MergeFailed True
   \<and> Merge [''tmp/cut_segment_1_AAAAAAAAAAA.mp4''] ''out.mp4''
        \<in> set (events (snd (main (example_args False) world_merge_fails)))
   \<and> fst (main (example_args False) world_merge_fails) = Finished
   \<and> ''out.mp4'' \<in> files (snd (main (example_args False) world_merge_fails))"
proof -
  have "mergeResult world_merge_fails = MergeFailed True"
    by (simp add: world_merge_fails_def example_world_def)
  then show ?thesis by (simp add: run_merge_fails)
qed

text \<open>
  What does hold for a run whose loop ends with an empty accumulator: no concatenation
  is started, and the process exits with status 0 when the run is verbose or the
  removal of the scratch directory succeeds.
\<close>

lemma empty_result_exit:
  assumes "ffmpegFound w" "ytdlpFound w" "dirsOk w" "read_input w = Inr tasks"
    "process_tasks a w 0 tasks (init_state a w) = (None, st2)" "cutSegmentPaths st2 = []"
  shows "(\<forall>ev\<in>set (events (snd (main a w))). \<not> is_merge ev)
     \<and> fst (main a w) = (if verbose a \<or> removeOk w then Exit 0 else Crashed ToolError)"
proof -
  from process_tasks_effect[OF assms(5)] have "\<forall>ev\<in>set (events st2). \<not> is_merge ev"
    by (auto simp: init_state_def)
  then show ?thesis
    unfolding main_reaches_loop[OF assms(1-5)] using assms(6) by simp
qed

text \<open>
  Claim C7 does not hold on the code. No request produces a clip, the run is not
  verbose, and \<open>fs.remove(tempDir)\<close> fails: the call at the emptiness test is not inside
  a \<open>try\<close>, so the error leaves \<open>main\<close> and the process ends as a crash instead of
  \<open>process.exit(0)\<close>. The same call in step 6 is inside a \<open>try\<close> and only warns.
\<close>

theorem empty_result_cleanup_crash:
  "main (example_args False) world_no_clip =
     (Crashed ToolError,
      \<lparr>files = {}, events = [], cutSegmentPaths = [], report = [Skipped InvalidReference]\<rparr>)"
  by code_simp

theorem empty_result_cleanup_crash_witness:
  "fst (main (example_args False) world_no_clip) = Crashed ToolError
   \<and> cutSegmentPaths (snd (main (example_args False) world_no_clip)) = []
   \<and> filter is_merge (events (snd (main (example_args False) world_no_clip))) = []"
  using empty_result_cleanup_crash by simp

lemma some_invalid_not_False:
  assumes "t \<in> set tasks" "task_invalid t \<noteq> Inr False"
  shows "some_invalid tasks \<noteq> Inr False"
  using assms
  by (induction tasks) (auto split: sum.splits bool.splits)

lemma read_input_rejects:
  assumes "inputFile w = Some (JArr tasks)" "t \<in> set tasks" "task_invalid t \<noteq> Inr False"
  shows "\<exists>e. read_input w = Inl e"
  using some_invalid_not_False[OF assms(2,3)] assms(1)
  by (auto simp: read_input_def split: sum.splits bool.splits)

text \<open>
  Claim C8. If any entry of the task list lacks \<open>url\<close>, \<open>startTime\<close> or \<open>endTime\<close>,
  the run exits with status 1 having started no download, cut or concatenation and having
  processed no request, also not the entries before the incomplete one.
\<close>

theorem validation_whole_batch:
  assumes "inputFile w = Some (JArr tasks)" and "t \<in> set tasks"
    and "k \<in> {''url'', ''startTime'', ''endTime''}" and "field t k = None"
  shows "fst (main a w) = Exit 1 \<and> events (snd (main a w)) = []
     \<and> report (snd (main a w)) = [] \<and> cutSegmentPaths (snd (main a w)) = []"
proof -
  have "task_invalid t \<noteq> Inr False"
    using assms(3,4) by (auto simp: task_invalid_def)
  from read_input_rejects[OF assms(1,2) this] show ?thesis
    by (intro main_early_exit) blast
qed

theorem validation_whole_batch_witness:
  "inputFile world_missing_field =
      Some (JArr [example_task ''https://youtu.be/AAAAAAAAAAA'' ''0'' ''5'',
              JObj [(''url'', JStr ''https://youtu.be/BBBBBBBBBBB''), (''startTime'', JStr ''1'')]])
   \<and> field (JObj [(''url'', JStr ''https://youtu.be/BBBBBBBBBBB''), (''startTime'', JStr ''1'')])
        ''endTime'' = None
   \<and> fst (main (example_args False) world_missing_field) = Exit 1
   \<and> events (snd (main (example_args False) world_missing_field)) = []
   \<and> report (snd (main (example_args False) world_missing_field)) = []"
proof -
  let ?bad = "JObj [(''url'', JStr ''https://youtu.be/BBBBBBBBBBB''), (''startTime'', JStr ''1'')]"
  let ?ts = "[example_task ''https://youtu.be/AAAAAAAAAAA'' ''0'' ''5'', ?bad]"
  have i: "inputFile world_missing_field = Some (JArr ?ts)"
    by (simp add: world_missing_field_def example_world_def)
  have m: "?bad \<in> set ?ts" by simp
  have k: "''endTime'' \<in> {''url'', ''startTime'', ''endTime''}" by simp
  have f: "field ?bad ''endTime'' = None" by simp
  from validation_whole_batch[OF i m k f, of "example_args False"] i f show ?thesis by blast
qed

end
